theory Spec2Isabelle
  imports Main
begin

section \<open>Strings and characters\<close>

text \<open>
  Python strings are sequences of code points. The model uses \<^typ>\<open>string\<close>, whose
  characters are the code points below 256; the character classes of the \<^verbatim>\<open>re\<close>
  module are written out for that range (Python 3, \<^verbatim>\<open>str\<close> patterns, Unicode
  classes).
\<close>

definition code_point :: "char \<Rightarrow> nat" where
  "code_point c = of_char c"

definition newline :: char where
  "newline = CHR 0x0A"

definition is_space :: "char \<Rightarrow> bool" where
  \<comment> \<open>\<^verbatim>\<open>\s\<close>\<close>
  "is_space c = (code_point c \<in> {9, 10, 11, 12, 13, 28, 29, 30, 31, 32, 133, 160})"

definition is_digit :: "char \<Rightarrow> bool" where
  \<comment> \<open>\<^verbatim>\<open>\d\<close>\<close>
  "is_digit c = (48 \<le> code_point c \<and> code_point c \<le> 57)"

definition is_word :: "char \<Rightarrow> bool" where
  \<comment> \<open>\<^verbatim>\<open>\w\<close>\<close>
  "is_word c = (let n = code_point c in
     (48 \<le> n \<and> n \<le> 57) \<or> (65 \<le> n \<and> n \<le> 90) \<or> n = 95 \<or> (97 \<le> n \<and> n \<le> 122) \<or>
     n \<in> {170, 178, 179, 181, 185, 186, 188, 189, 190} \<or>
     (192 \<le> n \<and> n \<le> 214) \<or> (216 \<le> n \<and> n \<le> 246) \<or> (248 \<le> n \<and> n \<le> 255))"

definition is_word_or_digit :: "char \<Rightarrow> bool" where
  \<comment> \<open>the set \<^verbatim>\<open>[\w\d]\<close>\<close>
  "is_word_or_digit c = (is_word c \<or> is_digit c)"

definition dot :: "char \<Rightarrow> bool" where
  \<comment> \<open>\<^verbatim>\<open>.\<close> without \<^verbatim>\<open>re.DOTALL\<close>\<close>
  "dot c = (c \<noteq> newline)"

definition dot_all :: "char \<Rightarrow> bool" where
  \<comment> \<open>\<^verbatim>\<open>.\<close> under \<^verbatim>\<open>re.DOTALL\<close>\<close>
  "dot_all c = True"

section \<open>Backtracking matchers\<close>

text \<open>
  A matcher tried at the start of a string returns the rests of the string after each
  way of matching, in the order in which the backtracking engine of \<^verbatim>\<open>re\<close> tries
  them: a greedy repetition offers the longest first, a lazy one the shortest first, and
  a sequence tries every continuation of an earlier alternative before the next one.
  The match found is the first of the list.
\<close>

type_synonym matcher = "string \<Rightarrow> string list"

definition lit :: "string \<Rightarrow> matcher" where
  "lit l s = (if take (length l) s = l then [drop (length l) s] else [])"

fun star :: "(char \<Rightarrow> bool) \<Rightarrow> matcher" where
  "star p [] = [[]]"
| "star p (c # s) = (if p c then star p s @ [c # s] else [c # s])"

fun lazy_star :: "(char \<Rightarrow> bool) \<Rightarrow> matcher" where
  "lazy_star p [] = [[]]"
| "lazy_star p (c # s) = (c # s) # (if p c then lazy_star p s else [])"

definition plus :: "(char \<Rightarrow> bool) \<Rightarrow> matcher" where
  "plus p s = (case s of [] \<Rightarrow> [] | c # t \<Rightarrow> if p c then star p t else [])"

definition seq :: "matcher \<Rightarrow> matcher \<Rightarrow> matcher" where
  "seq m1 m2 s = concat (map m2 (m1 s))"

fun cat :: "matcher list \<Rightarrow> matcher" where
  "cat [] s = [s]"
| "cat (m # ms) s = seq m (cat ms) s"

definition consumed :: "string \<Rightarrow> string \<Rightarrow> string" where
  \<comment> \<open>the text between the start of \<open>s\<close> and its rest \<open>r\<close>\<close>
  "consumed s r = take (length s - length r) s"

definition first_of :: "'a list \<Rightarrow> 'a option" where
  "first_of xs = (case xs of [] \<Rightarrow> None | x # _ \<Rightarrow> Some x)"

fun re_search :: "(string \<Rightarrow> 'a option) \<Rightarrow> string \<Rightarrow> 'a option" where
  \<comment> \<open>\<^verbatim>\<open>re.search\<close>: the match at the leftmost position that has one\<close>
  "re_search m [] = m []"
| "re_search m (c # s) = (case m (c # s) of Some g \<Rightarrow> Some g | None \<Rightarrow> re_search m s)"

function re_finditer :: "(string \<Rightarrow> ('a \<times> string) option) \<Rightarrow> string \<Rightarrow> 'a list" where
  \<comment> \<open>\<^verbatim>\<open>re.finditer\<close>: successive non-overlapping matches, left to right; the
      scan resumes at the end of a match, and one character on where there is none
      (or where the match is empty)\<close>
  "re_finditer m s =
     (case m s of
        None \<Rightarrow> (case s of [] \<Rightarrow> [] | _ # t \<Rightarrow> re_finditer m t)
      | Some (g, r) \<Rightarrow>
          if length r < length s then g # re_finditer m r
          else g # (case s of [] \<Rightarrow> [] | _ # t \<Rightarrow> re_finditer m t))"
  by pat_completeness auto
termination
  by (relation "measure (\<lambda>(m, s). length s)") auto

section \<open>The patterns of the extractor\<close>

definition marker_at :: "string \<Rightarrow> unit option" where
  \<comment> \<open>\<^verbatim>\<open>const linksData\<close>\<close>
  "marker_at s = first_of (map (\<lambda>_. ()) (lit ''const linksData'' s))"

definition json_at :: "string \<Rightarrow> string option" where
  \<comment> \<open>\<^verbatim>\<open>const linksData\s*=\s*(\{.*?\}\s*);\<close> under \<^verbatim>\<open>re.DOTALL\<close>; the
      result is group 1\<close>
  "json_at s = first_of (concat (map (\<lambda>r1. concat (map (\<lambda>r2. map (\<lambda>r3. consumed r1 r2)
       (lit '';'' r2))
       (cat [lit ''{'', lazy_star dot_all, lit ''}'', star is_space] r1)))
       (cat [lit ''const linksData'', star is_space, lit ''='', star is_space] s)))"

definition link_at :: "string \<Rightarrow> ((string \<times> string) \<times> string) option" where
  \<comment> \<open>\<^verbatim>\<open>\{\s*"name":\s*"(.*?)",\s*"url":\s*"(acestream://[\w\d]+)"\s*\}\<close>; the
      result is (group 1, group 2) and the rest of the text after the match\<close>
  \<open>link_at s = first_of (concat (map (\<lambda>r1. concat (map (\<lambda>r2. concat (map (\<lambda>r3.
       concat (map (\<lambda>r4. map (\<lambda>r5. ((consumed r1 r2, consumed r3 r4), r5))
       (cat [lit ''"'', star is_space, lit ''}''] r4))
       (cat [lit ''acestream://'', plus is_word_or_digit] r3)))
       (cat [lit ''",'', star is_space, lit ''"url":'', star is_space, lit ''"''] r2)))
       (lazy_star dot r1)))
       (cat [lit ''{'', star is_space, lit ''"name":'', star is_space, lit ''"''] s)))\<close>

definition link_head :: matcher where
  \<comment> \<open>the record pattern before the name group, \<^verbatim>\<open>\{\s*"name":\s*"\<close>\<close>
  \<open>link_head = cat [lit ''{'', star is_space, lit ''"name":'', star is_space, lit ''"'']\<close>

definition link_tail :: "string \<Rightarrow> (string \<times> string) list" where
  \<comment> \<open>the record pattern after the name group,
      \<^verbatim>\<open>",\s*"url":\s*"(acestream://[\w\d]+)"\s*\}\<close>: each way of matching, with
      group 2 and the rest of the text\<close>
  \<open>link_tail r2 = concat (map (\<lambda>r3.
       concat (map (\<lambda>r4. map (\<lambda>r5. (consumed r3 r4, r5))
       (cat [lit ''"'', star is_space, lit ''}''] r4))
       (cat [lit ''acestream://'', plus is_word_or_digit] r3)))
       (cat [lit ''",'', star is_space, lit ''"url":'', star is_space, lit ''"''] r2))\<close>

section \<open>Python's string split and list indexing\<close>

datatype exn = ClientError | TimeoutError | ClientResponseError int | IndexError
  | ParserRejectedMarkup

fun split_first :: "string \<Rightarrow> string \<Rightarrow> (string \<times> string) option" where
  \<comment> \<open>the text before and after the leftmost occurrence of \<open>sep\<close>\<close>
  "split_first sep [] = (if sep = [] then Some ([], []) else None)"
| "split_first sep (c # s) =
     (if take (length sep) (c # s) = sep then Some ([], drop (length sep) (c # s))
      else (case split_first sep s of None \<Rightarrow> None | Some (a, b) \<Rightarrow> Some (c # a, b)))"

function py_split :: "string \<Rightarrow> string \<Rightarrow> string list" where
  \<comment> \<open>\<^verbatim>\<open>s.split(sep)\<close> for a non-empty separator\<close>
  "py_split sep s =
     (case split_first sep s of
        None \<Rightarrow> [s]
      | Some (a, b) \<Rightarrow> if length b < length s then a # py_split sep b else [a, b])"
  by pat_completeness auto
termination
  by (relation "measure (\<lambda>(sep, s). length s)") auto

definition py_index :: "'a list \<Rightarrow> nat \<Rightarrow> exn + 'a" where
  "py_index xs i = (if i < length xs then Inr (xs ! i) else Inl IndexError)"

section \<open>The scraper\<close>

record tag =
  tag_name :: string
  tag_string :: "string option"

type_synonym soup = "tag list"

type_synonym channel = "string \<times> string"

record scraper =
  url :: string
  timeout :: int
  retries :: int
  identified_ids :: "string set"
  headers :: "(string \<times> string) list"

definition AceStreamScraper :: "string \<Rightarrow> int \<Rightarrow> int \<Rightarrow> scraper" where
  "AceStreamScraper u t r =
     \<lparr>url = u, timeout = t, retries = r, identified_ids = {},
      headers = [(''Accept'', ''text/html,application/xhtml+xml,application/xml;q=0.9,image/webp,*/*;q=0.8''),
                 (''User-Agent'', ''Mozilla/5.0 (Windows NT 10.0; Win64; x64) AppleWebKit/537.36 (KHTML, like Gecko) Chrome/91.0.4472.124 Safari/537.36'')]\<rparr>"

definition find_script :: "soup \<Rightarrow> tag option" where
  \<comment> \<open>\<^verbatim>\<open>soup.find('script', text=re.compile(r'const linksData'))\<close>: the first
      script element, in document order, whose string the marker is found in\<close>
  "find_script sp =
     find (\<lambda>t. tag_name t = ''script'' \<and>
                (case tag_string t of None \<Rightarrow> False
                 | Some txt \<Rightarrow> re_search marker_at txt \<noteq> None)) sp"

fun links_loop :: "(string \<times> string) list \<Rightarrow> channel list \<Rightarrow> string set
    \<Rightarrow> (exn + channel list) \<times> string set" where
  "links_loop [] channels ids = (Inr channels, ids)"
| "links_loop ((name, u) # ms) channels ids =
     (case py_index (py_split ''acestream://'' u) 1 of
        Inl e \<Rightarrow> (Inl e, ids)
      | Inr channel_id \<Rightarrow>
          if channel_id \<noteq> [] \<and> channel_id \<notin> ids
          then links_loop ms (channels @ [(channel_id, name)]) (insert channel_id ids)
          else links_loop ms channels ids)"

definition links_matches :: "soup \<Rightarrow> (string \<times> string) list" where
  \<comment> \<open>the (name, url) groups of the matches that the loop of
      \<^verbatim>\<open>extract_from_script\<close> runs over; empty where the script or the
      \<^verbatim>\<open>linksData\<close> literal is not found\<close>
  "links_matches sp =
     (case find_script sp of
        None \<Rightarrow> []
      | Some script_tag \<Rightarrow>
          (case tag_string script_tag of
             None \<Rightarrow> []
           | Some script_content \<Rightarrow>
               (case re_search json_at script_content of
                  None \<Rightarrow> []
                | Some json_text \<Rightarrow> re_finditer link_at json_text)))"

definition extract_from_script :: "scraper \<Rightarrow> soup \<Rightarrow> (exn + channel list) \<times> scraper" where
  "extract_from_script self sp =
     (case links_loop (links_matches sp) [] (identified_ids self) of
        (res, ids) \<Rightarrow> (res, self\<lparr>identified_ids := ids\<rparr>))"

subsection \<open>Fetching\<close>

text \<open>
  The network is outside the program. Its model fixes what each request gives, as a
  function of the number of requests issued before it, the URL and the timeout, and
  keeps a log of the requests issued (URL and timeout), so that what the scraper asks
  for can be stated. A failed request raises; \<^verbatim>\<open>fetch_content\<close> logs and re-raises.
\<close>

record net =
  outcome :: "nat \<Rightarrow> string \<Rightarrow> int \<Rightarrow> exn + string"
  requests :: "(string \<times> int) list"

definition fetch_content :: "scraper \<Rightarrow> string \<Rightarrow> net \<Rightarrow> (exn + string) \<times> net" where
  "fetch_content self u nw =
     (outcome nw (length (requests nw)) u (timeout self),
      nw\<lparr>requests := requests nw @ [(u, timeout self)]\<rparr>)"

subsection \<open>The retry loop\<close>

text \<open>
  \<^verbatim>\<open>BeautifulSoup(content, 'html.parser')\<close> is a library call: the parser is a
  parameter, a function from the text to the elements of the document in document
  order, or to the exception it raises on a text it rejects. The call stands inside
  the \<^verbatim>\<open>try\<close> block, so that an exception of the parser is handled like one of
  the fetch.
\<close>

type_synonym html_parser = "string \<Rightarrow> exn + soup"

definition attempt :: "html_parser \<Rightarrow> scraper \<Rightarrow> net
    \<Rightarrow> (exn + channel list) \<times> scraper \<times> net" where
  \<comment> \<open>the body of the \<^verbatim>\<open>try\<close> block up to \<^verbatim>\<open>channels.extend\<close>\<close>
  "attempt parser self nw =
     (case fetch_content self (url self) nw of
        (Inl e, nw') \<Rightarrow> (Inl e, self, nw')
      | (Inr content, nw') \<Rightarrow>
          (case parser content of
             Inl e \<Rightarrow> (Inl e, self, nw')
           | Inr sp \<Rightarrow>
               (case extract_from_script self sp of
                  (res, self') \<Rightarrow> (res, self', nw'))))"

function scrape_loop :: "html_parser \<Rightarrow> scraper \<Rightarrow> net \<Rightarrow> channel list \<Rightarrow> int
    \<Rightarrow> channel list \<times> scraper \<times> net" where
  "scrape_loop parser self nw channels retries_left =
     (if 0 \<le> retries_left then
        (case attempt parser self nw of
           (Inr script_channels, self', nw') \<Rightarrow> (channels @ script_channels, self', nw')
         | (Inl e, self', nw') \<Rightarrow>
             if retries_left - 1 < 0 then (channels, self', nw')
             else scrape_loop parser (self'\<lparr>timeout := timeout self' + 5\<rparr>) nw' channels
                    (retries_left - 1))
      else (channels, self, nw))"
  by pat_completeness auto
termination
  by (relation "measure (\<lambda>(parser, self, nw, channels, retries_left). nat (retries_left + 1))") auto

definition scrape :: "html_parser \<Rightarrow> scraper \<Rightarrow> net \<Rightarrow> channel list \<times> scraper \<times> net" where
  "scrape parser self nw = scrape_loop parser self nw [] (retries self)"

subsection \<open>The output records\<close>

definition format_output :: "channel list \<Rightarrow> (string \<times> string) list list" where
  \<comment> \<open>each channel as a dictionary with the keys \<^verbatim>\<open>name\<close> and \<^verbatim>\<open>id\<close>, in
      that order\<close>
  "format_output channels =
     map (\<lambda>(channel_id, name). [(''name'', name), (''id'', channel_id)]) channels"

subsection \<open>The writers\<close>

text \<open>
  The file system maps a file name to the text of the file. Opening with mode
  \<^verbatim>\<open>"w"\<close> starts from the empty text; each \<^verbatim>\<open>f.write\<close> appends.
  Every write succeeds: a failing disk is outside the model.
\<close>

type_synonym files = "string \<rightharpoonup> string"

definition save_to_file :: "channel list \<Rightarrow> string \<Rightarrow> files \<Rightarrow> files" where
  "save_to_file channels filename fs =
     fs(filename \<mapsto>
        foldl (\<lambda>f (channel_id, name).
                 (f @ ''#EXTINF:-1,'' @ name @ [newline])
                   @ ''http://127.0.0.1:6878/ace/getstream?id='' @ channel_id @ [newline])
              (''#EXTM3U'' @ [newline]) channels)"

definition save_to_m3u :: "channel list \<Rightarrow> string \<Rightarrow> files \<Rightarrow> files" where
  "save_to_m3u channels filename fs =
     fs(filename \<mapsto>
        foldl (\<lambda>f (channel_id, name).
                 (f @ ''#EXTINF:-1,'' @ name @ [newline])
                   @ ''acestream://'' @ channel_id @ [newline])
              (''#EXTM3U'' @ [newline]) channels)"

subsection \<open>The driver\<close>

function str_nat :: "nat \<Rightarrow> string" where
  \<comment> \<open>the decimal text of a number, as an f-string formats it\<close>
  "str_nat n = (if n < 10 then [char_of (48 + n)]
                else str_nat (n div 10) @ [char_of (48 + n mod 10)])"
  by pat_completeness auto
termination
  by (relation "measure id") auto

record world =
  network :: net
  disk :: files
  stdout :: "string list"

definition main :: "html_parser \<Rightarrow> world \<Rightarrow> world" where
  "main parser w =
     (let scraper = AceStreamScraper ''https://archive.org/download/abcd_20240416/output.html'' 10 3
      in case scrape parser scraper (network w) of
        (channels, scraper', nw') \<Rightarrow>
          if channels \<noteq> [] then
            w\<lparr>network := nw',
              stdout := stdout w
                @ [''Found '' @ str_nat (length channels) @ '' channels:'']
                @ map (\<lambda>(i, (channel_id, name)).
                         str_nat i @ ''. '' @ name @ '': acestream://'' @ channel_id)
                      (zip [1 ..< 11] (take 10 channels))
                @ (if length channels > 10
                   then [''...and '' @ str_nat (length channels - 10) @ '' more channels'']
                   else []),
              disk := save_to_m3u channels ''acestream_playlist.m3u''
                        (save_to_file channels ''acestream_channels.txt'' (disk w))\<rparr>
          else
            w\<lparr>network := nw', stdout := stdout w @ [''No channels found'']\<rparr>)"

section \<open>Notions of the specification\<close>

definition link_pairs :: "soup \<Rightarrow> channel list" where
  \<comment> \<open>the records of the document in match order, each as (identifier, name): the
      identifier is the text of the url group after the scheme prefix\<close>
  "link_pairs sp = map (\<lambda>(name, u). (drop (length ''acestream://'') u, name)) (links_matches sp)"

definition first_occurrences :: "'a list \<Rightarrow> 'a list" where
  \<comment> \<open>the elements of a list in the order of their first occurrence, each once
      (\<open>remdups\<close> keeps the last occurrence of each element)\<close>
  "first_occurrences ks = rev (remdups (rev ks))"

definition has_marker :: "tag \<Rightarrow> bool" where
  \<comment> \<open>a script element whose text contains the marker\<close>
  "has_marker t = (tag_name t = ''script'' \<and>
                   (\<exists>pre post. tag_string t = Some (pre @ ''const linksData'' @ post)))"

definition attempt_fails :: "html_parser \<Rightarrow> exn + string \<Rightarrow> bool" where
  \<comment> \<open>what a request gave makes the attempt fail: the fetch raised, or the parser
      raises on the page fetched\<close>
  "attempt_fails parser res =
     (case res of
        Inl e \<Rightarrow> True
      | Inr content \<Rightarrow> (case parser content of Inl e \<Rightarrow> True | Inr sp \<Rightarrow> False))"

definition legacy_uri :: "string \<Rightarrow> string" where
  "legacy_uri channel_id = ''http://127.0.0.1:6878/ace/getstream?id='' @ channel_id"

definition native_uri :: "string \<Rightarrow> string" where
  "native_uri channel_id = ''acestream://'' @ channel_id"

definition playlist :: "(string \<Rightarrow> string) \<Rightarrow> channel list \<Rightarrow> string" where
  \<comment> \<open>the header line, then for each channel its two lines\<close>
  "playlist uri channels =
     ''#EXTM3U'' @ [newline] @
     concat (map (\<lambda>(channel_id, name).
                    ''#EXTINF:-1,'' @ name @ [newline] @ uri channel_id @ [newline]) channels)"

definition strip_prefix :: "string \<Rightarrow> string \<Rightarrow> string option" where
  "strip_prefix p l = (if take (length p) l = p then Some (drop (length p) l) else None)"

fun parse_entries :: "string list \<Rightarrow> channel list option" where
  "parse_entries [] = Some []"
| "parse_entries [l] = (if l = [] then Some [] else None)"
| "parse_entries (l1 # l2 # ls) =
     (case strip_prefix ''#EXTINF:-1,'' l1 of
        None \<Rightarrow> None
      | Some name \<Rightarrow>
          (case strip_prefix ''http://127.0.0.1:6878/ace/getstream?id='' l2 of
             None \<Rightarrow> None
           | Some channel_id \<Rightarrow>
               (case parse_entries ls of
                  None \<Rightarrow> None
                | Some channels \<Rightarrow> Some ((channel_id, name) # channels))))"

definition parse_legacy :: "string \<Rightarrow> channel list option" where
  \<comment> \<open>reading a legacy playlist back: the text is split into lines, the header line is
      dropped, and each following pair of lines gives a name and an identifier by
      taking off the two known prefixes\<close>
  "parse_legacy text =
     (case py_split [newline] text of
        [] \<Rightarrow> None
      | h # ls \<Rightarrow> if h = ''#EXTM3U'' then parse_entries ls else None)"

section \<open>Documents of the scenarios\<close>

definition script_element :: "string \<Rightarrow> soup" where
  \<comment> \<open>the document whose one element is a script with the given text\<close>
  "script_element text = [\<lparr>tag_name = ''script'', tag_string = Some text\<rparr>]"

definition script_page :: html_parser where
  \<comment> \<open>a parser that reads every page as a single script\<close>
  "script_page text = Inr (script_element text)"

definition rejected_page :: string where
  \<comment> \<open>a page on which Python's \<^verbatim>\<open>html.parser\<close> raises (an unknown keyword in a
      marked section)\<close>
  "rejected_page = ''<![foo]>''"

definition strict_page :: html_parser where
  \<comment> \<open>a parser that raises on \<open>rejected_page\<close> and reads every other page as a single
      script\<close>
  "strict_page text =
     (if text = rejected_page then Inl ParserRejectedMarkup else Inr (script_element text))"

definition marker_only_page :: string where
  \<comment> \<open>the marker is there, the object literal is not\<close>
  "marker_only_page = ''const linksData = [1, 2, 3];''"

definition scenario_B :: string where
  \<open>scenario_B = ''const linksData = { links: [{"name":"Channel 1","url":"acestream://abc123"},{"name":"Channel 1 dup","url":"acestream://abc123"}] };''\<close>

definition no_data_page :: string where
  "no_data_page = ''<p>nothing here</p>''"

definition failing_then :: "nat \<Rightarrow> string \<Rightarrow> net" where
  \<comment> \<open>a network on which the first \<open>n\<close> requests time out and every later one
      gives the text; no request issued yet\<close>
  "failing_then n text =
     \<lparr>outcome = (\<lambda>i u t. if i < n then Inl TimeoutError else Inr text), requests = []\<rparr>"

definition pages :: "string list \<Rightarrow> net" where
  \<comment> \<open>a network on which the requests give the pages of the list, one after the other,
      and time out once the list is used up; no request issued yet\<close>
  "pages ps =
     \<lparr>outcome = (\<lambda>i u t. if i < length ps then Inr (ps ! i) else Inl TimeoutError),
      requests = []\<rparr>"

definition scenario_C :: string where
  \<open>scenario_C = ''const linksData = {"links": [{"name": "One", "url": "acestream://a1"}, {"name": "Two", "url": "acestream://b2"}]};''\<close>

definition quoted_record :: string where
  \<comment> \<open>a record with inner quotes in its name\<close>
  \<open>quoted_record = ''{"name": "A "B" C", "url": "acestream://abc"}''\<close>

definition quoted_name_page :: string where
  \<comment> \<open>that record and a second one on the same line\<close>
  \<open>quoted_name_page = ''const linksData = {"links": [{"name": "A "B" C", "url": "acestream://abc"}, {"name": "D", "url": "acestream://d4"}]};''\<close>

definition after_quoted_record :: string where
  \<comment> \<open>the text of the \<^verbatim>\<open>linksData\<close> literal of that page after its first record\<close>
  \<open>after_quoted_record = '', {"name": "D", "url": "acestream://d4"}]}''\<close>

definition newline_name_channels :: "channel list" where
  "newline_name_channels =
     [(''y'', ''a'' @ [newline] @ ''http://127.0.0.1:6878/ace/getstream?id=x'' @ [newline]
               @ ''#EXTINF:-1,b'')]"

definition empty_world :: "net \<Rightarrow> world" where
  "empty_world nw = \<lparr>network = nw, disk = Map.empty, stdout = []\<rparr>"

section \<open>Facts about the matchers\<close>

declare re_finditer.simps [simp del] py_split.simps [simp del] scrape_loop.simps [simp del]
  str_nat.simps [simp del]

lemma lit_iff: "r \<in> set (lit l s) \<longleftrightarrow> s = l @ r"
  by (auto simp: lit_def) (metis append_take_drop_id)

lemma star_sound: "r \<in> set (star p s) \<Longrightarrow> \<exists>u. s = u @ r \<and> (\<forall>c\<in>set u. p c)"
proof (induction s)
  case Nil
  then show ?case by simp
next
  case (Cons c s)
  show ?case
  proof (cases "r = c # s")
    case True
    then show ?thesis by simp
  next
    case False
    with Cons.prems have "p c" and "r \<in> set (star p s)" by (auto split: if_splits)
    with Cons.IH obtain u where "s = u @ r" "\<forall>c\<in>set u. p c" by blast
    with \<open>p c\<close> have "c # s = (c # u) @ r \<and> (\<forall>x\<in>set (c # u). p x)" by simp
    then show ?thesis by blast
  qed
qed

lemma lazy_star_sound: "r \<in> set (lazy_star p s) \<Longrightarrow> \<exists>u. s = u @ r \<and> (\<forall>c\<in>set u. p c)"
proof (induction s)
  case Nil
  then show ?case by simp
next
  case (Cons c s)
  show ?case
  proof (cases "r = c # s")
    case True
    then show ?thesis by simp
  next
    case False
    with Cons.prems have "p c" and "r \<in> set (lazy_star p s)" by (auto split: if_splits)
    with Cons.IH obtain u where "s = u @ r" "\<forall>c\<in>set u. p c" by blast
    with \<open>p c\<close> have "c # s = (c # u) @ r \<and> (\<forall>x\<in>set (c # u). p x)" by simp
    then show ?thesis by blast
  qed
qed

lemma plus_sound:
  assumes "r \<in> set (plus p s)"
  shows "\<exists>u. s = u @ r \<and> u \<noteq> [] \<and> (\<forall>c\<in>set u. p c)"
proof -
  from assms obtain c t where s: "s = c # t" and pc: "p c" and r: "r \<in> set (star p t)"
    by (auto simp: plus_def split: list.splits if_splits)
  from star_sound [OF r] obtain u where "t = u @ r" "\<forall>c\<in>set u. p c" by blast
  with s pc have "s = (c # u) @ r \<and> c # u \<noteq> [] \<and> (\<forall>x\<in>set (c # u). p x)" by simp
  then show ?thesis by blast
qed

lemma seq_iff: "r \<in> set (seq m1 m2 s) \<longleftrightarrow> (\<exists>r'\<in>set (m1 s). r \<in> set (m2 r'))"
  by (auto simp: seq_def)

lemma consumed_append: "consumed (u @ r) r = u"
  by (simp add: consumed_def)

lemma first_of_Some: "first_of xs = Some x \<Longrightarrow> x \<in> set xs"
  by (auto simp: first_of_def split: list.splits)

text \<open>Every match of the record pattern has the record's shape.\<close>

lemma link_at_shape:
  assumes "link_at s = Some ((name, u), r)"
  shows \<open>\<exists>w1 w2 w3 w4 w5 tok.
     s = ''{'' @ w1 @ ''"name":'' @ w2 @ ''"'' @ name @ ''",'' @ w3 @ ''"url":'' @ w4 @ ''"''
          @ u @ ''"'' @ w5 @ ''}'' @ r \<and>
     u = ''acestream://'' @ tok \<and> tok \<noteq> [] \<and> (\<forall>c\<in>set tok. is_word_or_digit c) \<and>
     (\<forall>c\<in>set name. c \<noteq> newline) \<and>
     (\<forall>c\<in>set (w1 @ w2 @ w3 @ w4 @ w5). is_space c)\<close>
proof -
  from first_of_Some [OF assms [unfolded link_at_def]]
  obtain r1 r2 r3 r4 where
    1: \<open>r1 \<in> set (cat [lit ''{'', star is_space, lit ''"name":'', star is_space, lit ''"''] s)\<close> and
    2: "r2 \<in> set (lazy_star dot r1)" and
    3: \<open>r3 \<in> set (cat [lit ''",'', star is_space, lit ''"url":'', star is_space, lit ''"''] r2)\<close> and
    4: "r4 \<in> set (cat [lit ''acestream://'', plus is_word_or_digit] r3)" and
    5: \<open>r \<in> set (cat [lit ''"'', star is_space, lit ''}''] r4)\<close> and
    n: "name = consumed r1 r2" and u: "u = consumed r3 r4"
    by auto
  from 1 obtain w1 w2 where s: \<open>s = ''{'' @ w1 @ ''"name":'' @ w2 @ ''"'' @ r1\<close>
    and w12: "\<forall>c\<in>set (w1 @ w2). is_space c"
    by (fastforce simp: seq_iff lit_iff dest!: star_sound)
  from 2 obtain nm where r1: "r1 = nm @ r2" and nm: "\<forall>c\<in>set nm. dot c"
    by (blast dest: lazy_star_sound)
  from 3 obtain w3 w4 where r2: \<open>r2 = ''",'' @ w3 @ ''"url":'' @ w4 @ ''"'' @ r3\<close>
    and w34: "\<forall>c\<in>set (w3 @ w4). is_space c"
    by (fastforce simp: seq_iff lit_iff dest!: star_sound)
  from 4 obtain tok where r3: "r3 = ''acestream://'' @ tok @ r4" and tok: "tok \<noteq> []"
    "\<forall>c\<in>set tok. is_word_or_digit c"
    by (fastforce simp: seq_iff lit_iff dest!: plus_sound)
  from 5 obtain w5 where r4: \<open>r4 = ''"'' @ w5 @ ''}'' @ r\<close> and w5: "\<forall>c\<in>set w5. is_space c"
    by (fastforce simp: seq_iff lit_iff dest!: star_sound)
  have name: "name = nm" using n r1 by (simp add: consumed_append)
  have "r3 = (''acestream://'' @ tok) @ r4" using r3 by simp
  then have url: "u = ''acestream://'' @ tok" using u consumed_append by metis
  show ?thesis
    apply (rule exI [of _ w1], rule exI [of _ w2], rule exI [of _ w3], rule exI [of _ w4],
        rule exI [of _ w5], rule exI [of _ tok])
    using s r1 r2 r3 r4 name url tok nm w12 w34 w5 by (auto simp: dot_def)
qed

lemma re_finditer_sound:
  "g \<in> set (re_finditer m s) \<Longrightarrow> \<exists>s' r. m s' = Some (g, r)"
proof (induction m s rule: re_finditer.induct)
  case (1 m s)
  note mem = "1.prems" [unfolded re_finditer.simps [of m s]]
  show ?case
  proof (cases "m s")
    case None
    with mem "1.IH"(1) show ?thesis
      by (cases s) auto
  next
    case (Some a)
    obtain g' r where a: "a = (g', r)" by (cases a)
    show ?thesis
    proof (cases "g = g'")
      case True
      with Some a show ?thesis by blast
    next
      case False
      with mem Some a "1.IH"(2,3) show ?thesis
        by (cases s) (auto split: if_splits)
    qed
  qed
qed

lemma split_first_no_colon:
  "CHR '':'' \<notin> set s \<Longrightarrow> split_first ''acestream://'' s = None"
proof (induction s)
  case Nil
  then show ?case by simp
next
  case (Cons c s)
  have "take (length ''acestream://'') (c # s) \<noteq> ''acestream://''"
  proof
    assume "take (length ''acestream://'') (c # s) = ''acestream://''"
    then have "CHR '':'' \<in> set (take (length ''acestream://'') (c # s))" by simp
    then have "CHR '':'' \<in> set (c # s)" by (rule in_set_takeD)
    with Cons.prems show False by simp
  qed
  with Cons show ?case by simp
qed

lemma word_or_digit_not_colon: "is_word_or_digit c \<Longrightarrow> c \<noteq> CHR '':''"
  by (auto simp: is_word_or_digit_def is_word_def is_digit_def code_point_def)

lemma channel_id_of_url:
  assumes "\<forall>c\<in>set tok. is_word_or_digit c"
  shows "py_index (py_split ''acestream://'' (''acestream://'' @ tok)) 1 = Inr tok"
proof -
  from assms have "CHR '':'' \<notin> set tok" using word_or_digit_not_colon by blast
  then have n: "split_first ''acestream://'' tok = None" by (rule split_first_no_colon)
  have f: "split_first ''acestream://'' (''acestream://'' @ tok) = Some ([], tok)" by simp
  have "py_split ''acestream://'' (''acestream://'' @ tok) = [[], tok]"
    by (subst py_split.simps, simp only: f, simp add: py_split.simps [of _ tok] n)
  then show ?thesis by (simp add: py_index_def)
qed

lemma remdups_snoc: "remdups (ys @ [k]) = filter (\<lambda>x. x \<noteq> k) (remdups ys) @ [k]"
  by (induction ys) auto

lemma first_occurrences_Nil: "first_occurrences [] = []"
  by (simp add: first_occurrences_def)

lemma first_occurrences_Cons:
  "first_occurrences (k # ks) = k # first_occurrences (filter (\<lambda>x. x \<noteq> k) ks)"
  by (simp add: first_occurrences_def remdups_snoc rev_filter remdups_filter)

lemma links_matches_shape:
  assumes "(name, u) \<in> set (links_matches sp)"
  shows "\<exists>tok. u = ''acestream://'' @ tok \<and> tok \<noteq> [] \<and> (\<forall>c\<in>set tok. is_word_or_digit c) \<and>
           (\<forall>c\<in>set name. c \<noteq> newline)"
proof -
  from assms obtain jt where "(name, u) \<in> set (re_finditer link_at jt)"
    by (auto simp: links_matches_def split: option.splits)
  from re_finditer_sound [OF this] obtain s r where "link_at s = Some ((name, u), r)" by blast
  from link_at_shape [OF this] show ?thesis by blast
qed

lemma links_loop_first_occurrences:
  assumes "\<forall>m\<in>set ms. \<exists>tok. snd m = ''acestream://'' @ tok \<and> tok \<noteq> [] \<and> (\<forall>c\<in>set tok. is_word_or_digit c)"
  shows "\<exists>new. links_loop ms chs ids = (Inr (chs @ new), ids \<union> fst ` set new) \<and>
           fst ` set new \<inter> ids = {} \<and> distinct (map fst new) \<and>
           map fst new = first_occurrences (filter (\<lambda>i. i \<notin> ids)
                            (map (\<lambda>(name, u). drop (length ''acestream://'') u) ms)) \<and>
           (\<forall>c\<in>set new. map_of (map (\<lambda>(name, u). (drop (length ''acestream://'') u, name)) ms) (fst c) = Some (snd c))"
  using assms
proof (induction ms arbitrary: chs ids)
  case Nil
  show ?case by (simp add: first_occurrences_Nil)
next
  case (Cons m ms)
  obtain name u where m: "m = (name, u)" by (cases m)
  from Cons.prems m obtain tok where u: "u = ''acestream://'' @ tok" and tok: "tok \<noteq> []"
    and wd: "\<forall>c\<in>set tok. is_word_or_digit c" by auto
  have idx: "py_index (py_split ''acestream://'' u) 1 = Inr tok"
    unfolding u using wd by (rule channel_id_of_url)
  have dr: "drop (length ''acestream://'') u = tok" by (simp add: u)
  from Cons.prems have rest: "\<forall>m\<in>set ms. \<exists>tok. snd m = ''acestream://'' @ tok \<and> tok \<noteq> [] \<and> (\<forall>c\<in>set tok. is_word_or_digit c)"
    by simp
  show ?case
  proof (cases "tok \<in> ids")
    case True
    from Cons.IH [OF rest, of chs ids] obtain new where
      l: "links_loop ms chs ids = (Inr (chs @ new), ids \<union> fst ` set new)" and
      d: "fst ` set new \<inter> ids = {}" and dist: "distinct (map fst new)" and
      o: "map fst new = first_occurrences (filter (\<lambda>i. i \<notin> ids)
                            (map (\<lambda>(name, u). drop (length ''acestream://'') u) ms))" and
      n: "\<forall>c\<in>set new. map_of (map (\<lambda>(name, u). (drop (length ''acestream://'') u, name)) ms) (fst c) = Some (snd c)"
      by blast
    have l': "links_loop (m # ms) chs ids = (Inr (chs @ new), ids \<union> fst ` set new)"
      using True l idx by (simp add: m)
    have o': "map fst new = first_occurrences (filter (\<lambda>i. i \<notin> ids)
                            (map (\<lambda>(name, u). drop (length ''acestream://'') u) (m # ms)))"
      using True o dr by (simp add: m)
    have n': "\<forall>c\<in>set new. map_of (map (\<lambda>(name, u). (drop (length ''acestream://'') u, name)) (m # ms)) (fst c) = Some (snd c)"
    proof
      fix c assume c: "c \<in> set new"
      with d True have "fst c \<noteq> tok" by auto
      with n c dr show "map_of (map (\<lambda>(name, u). (drop (length ''acestream://'') u, name)) (m # ms)) (fst c) = Some (snd c)"
        by (simp add: m)
    qed
    from l' d dist o' n' show ?thesis by blast
  next
    case False
    from Cons.IH [OF rest, of "chs @ [(tok, name)]" "insert tok ids"] obtain new where
      l: "links_loop ms (chs @ [(tok, name)]) (insert tok ids)
            = (Inr ((chs @ [(tok, name)]) @ new), insert tok ids \<union> fst ` set new)" and
      d: "fst ` set new \<inter> insert tok ids = {}" and dist: "distinct (map fst new)" and
      o: "map fst new = first_occurrences (filter (\<lambda>i. i \<notin> insert tok ids)
                            (map (\<lambda>(name, u). drop (length ''acestream://'') u) ms))" and
      n: "\<forall>c\<in>set new. map_of (map (\<lambda>(name, u). (drop (length ''acestream://'') u, name)) ms) (fst c) = Some (snd c)"
      by blast
    let ?new = "(tok, name) # new"
    have l': "links_loop (m # ms) chs ids = (Inr (chs @ ?new), ids \<union> fst ` set ?new)"
      using False tok l idx by (simp add: m)
    have d': "fst ` set ?new \<inter> ids = {}" using d False by auto
    have dist': "distinct (map fst ?new)" using d dist by auto
    have o': "map fst ?new = first_occurrences (filter (\<lambda>i. i \<notin> ids)
                            (map (\<lambda>(name, u). drop (length ''acestream://'') u) (m # ms)))"
      proof -
      have "filter (\<lambda>i. i \<notin> ids) (map (\<lambda>(name, u). drop (length ''acestream://'') u) (m # ms))
              = tok # filter (\<lambda>i. i \<notin> ids) (map (\<lambda>(name, u). drop (length ''acestream://'') u) ms)"
        using False dr by (simp add: m)
      moreover have "filter (\<lambda>x. x \<noteq> tok) (filter (\<lambda>i. i \<notin> ids) ks)
              = filter (\<lambda>i. i \<notin> insert tok ids) ks" for ks :: "string list"
        by (induction ks) auto
      ultimately show ?thesis
        using o by (simp only: first_occurrences_Cons list.map fst_conv)
    qed
    have n': "\<forall>c\<in>set ?new. map_of (map (\<lambda>(name, u). (drop (length ''acestream://'') u, name)) (m # ms)) (fst c) = Some (snd c)"
    proof
      fix c assume c: "c \<in> set ?new"
      show "map_of (map (\<lambda>(name, u). (drop (length ''acestream://'') u, name)) (m # ms)) (fst c) = Some (snd c)"
      proof (cases "c = (tok, name)")
        case True
        then show ?thesis using dr by (simp add: m)
      next
        case ne: False
        with c have cn: "c \<in> set new" by simp
        with d have "fst c \<noteq> tok" by auto
        with n cn dr show ?thesis by (simp add: m)
      qed
    qed
    from l' d' dist' o' n' show ?thesis by blast
  qed
qed

lemma link_pairs_keys:
  "map fst (link_pairs sp) = map (\<lambda>(name, u). drop (length ''acestream://'') u) (links_matches sp)"
  by (simp add: link_pairs_def case_prod_unfold)

lemma links_matches_valid:
  "\<forall>m\<in>set (links_matches sp).
     \<exists>tok. snd m = ''acestream://'' @ tok \<and> tok \<noteq> [] \<and> (\<forall>c\<in>set tok. is_word_or_digit c)"
proof
  fix m assume "m \<in> set (links_matches sp)"
  then have "(fst m, snd m) \<in> set (links_matches sp)" by simp
  from links_matches_shape [OF this] show
    "\<exists>tok. snd m = ''acestream://'' @ tok \<and> tok \<noteq> [] \<and> (\<forall>c\<in>set tok. is_word_or_digit c)"
    by blast
qed

lemma extract_from_script_result:
  "\<exists>new. extract_from_script self sp
            = (Inr new, self\<lparr>identified_ids := identified_ids self \<union> fst ` set new\<rparr>) \<and>
         fst ` set new \<inter> identified_ids self = {} \<and> distinct (map fst new) \<and>
         map fst new = first_occurrences (filter (\<lambda>i. i \<notin> identified_ids self)
                                         (map fst (link_pairs sp))) \<and>
         (\<forall>c\<in>set new. map_of (link_pairs sp) (fst c) = Some (snd c))"
proof -
  from links_loop_first_occurrences [OF links_matches_valid, of sp "[]" "identified_ids self"]
  obtain new where
    l: "links_loop (links_matches sp) [] (identified_ids self)
          = (Inr ([] @ new), identified_ids self \<union> fst ` set new)" and
    r: "fst ` set new \<inter> identified_ids self = {}" "distinct (map fst new)"
       "map fst new = first_occurrences (filter (\<lambda>i. i \<notin> identified_ids self)
          (map (\<lambda>(name, u). drop (length ''acestream://'') u) (links_matches sp)))"
       "\<forall>c\<in>set new. map_of (map (\<lambda>(name, u). (drop (length ''acestream://'') u, name))
          (links_matches sp)) (fst c) = Some (snd c)"
    by blast
  from l have "extract_from_script self sp
      = (Inr new, self\<lparr>identified_ids := identified_ids self \<union> fst ` set new\<rparr>)"
    by (simp add: extract_from_script_def)
  with r show ?thesis
    unfolding link_pairs_keys unfolding link_pairs_def by blast
qed

section \<open>The extractor\<close>

text \<open>
  Claim C1. For every document and every scraper state, the extractor returns a list
  (it never raises) whose identifiers are pairwise distinct; the identifiers are those
  of the document's records that the scraper has not seen before, in the order of their
  first occurrence in the document; and the name kept with an identifier is the name of
  the first record of the document with that identifier.
\<close>

theorem extract_from_script_first_occurrence:
  "\<exists>chs. fst (extract_from_script self sp) = Inr chs \<and>
     distinct (map fst chs) \<and>
     map fst chs = first_occurrences (filter (\<lambda>i. i \<notin> identified_ids self)
                                       (map fst (link_pairs sp))) \<and>
     (\<forall>c\<in>set chs. map_of (link_pairs sp) (fst c) = Some (snd c))"
  using extract_from_script_result [of self sp] by force

lemma scenario_B_pairs:
  "link_pairs (script_element scenario_B)
     = [(''abc123'', ''Channel 1''), (''abc123'', ''Channel 1 dup'')]"
  by code_simp

theorem extract_from_script_first_occurrence_witness:
  "fst (extract_from_script (AceStreamScraper ''u'' 10 3) (script_element scenario_B))
     = Inr [(''abc123'', ''Channel 1'')]"
proof -
  from extract_from_script_first_occurrence
    [of "AceStreamScraper ''u'' 10 3" "script_element scenario_B"]
  obtain chs where
    e: "fst (extract_from_script (AceStreamScraper ''u'' 10 3) (script_element scenario_B)) = Inr chs"
    and k: "map fst chs = first_occurrences (filter (\<lambda>i. i \<notin> identified_ids (AceStreamScraper ''u'' 10 3))
                                       (map fst (link_pairs (script_element scenario_B))))"
    and n: "\<forall>c\<in>set chs. map_of (link_pairs (script_element scenario_B)) (fst c) = Some (snd c)"
    by blast
  from k have "map fst chs = [''abc123'']"
    by (simp add: scenario_B_pairs AceStreamScraper_def first_occurrences_def)
  then obtain nm where c: "chs = [(''abc123'', nm)]" by (cases chs) auto
  with n have "nm = ''Channel 1''" by (simp add: scenario_B_pairs)
  with c e show ?thesis by simp
qed

lemma re_search_iff:
  "(re_search m s \<noteq> None) = (\<exists>pre suf. s = pre @ suf \<and> m suf \<noteq> None)"
proof (induction s)
  case Nil
  show ?case by simp
next
  case (Cons c s)
  show ?case
  proof (cases "m (c # s)")
    case (Some g)
    then have "c # s = [] @ (c # s) \<and> m (c # s) \<noteq> None" by simp
    then have "\<exists>pre suf. c # s = pre @ suf \<and> m suf \<noteq> None" by blast
    with Some show ?thesis by simp
  next
    case None
    have "(\<exists>pre suf. c # s = pre @ suf \<and> m suf \<noteq> None) = (\<exists>pre suf. s = pre @ suf \<and> m suf \<noteq> None)"
    proof
      assume "\<exists>pre suf. c # s = pre @ suf \<and> m suf \<noteq> None"
      then obtain pre suf where p: "c # s = pre @ suf" "m suf \<noteq> None" by blast
      with None have "pre \<noteq> []" by (cases pre) auto
      with p(1) obtain pre' where "pre = c # pre'" "s = pre' @ suf" by (cases pre) auto
      with p(2) show "\<exists>pre suf. s = pre @ suf \<and> m suf \<noteq> None" by blast
    next
      assume "\<exists>pre suf. s = pre @ suf \<and> m suf \<noteq> None"
      then obtain pre suf where "s = pre @ suf" "m suf \<noteq> None" by blast
      then have "c # s = (c # pre) @ suf \<and> m suf \<noteq> None" by simp
      then show "\<exists>pre suf. c # s = pre @ suf \<and> m suf \<noteq> None" by blast
    qed
    with None Cons.IH show ?thesis by simp
  qed
qed

text \<open>
  Claim C7. The list that extraction returns depends on the document and the seen
  identifiers only: on the same document, two runs that both start from an empty seen
  set return the same list, whatever else differs between the two scrapers.
\<close>

theorem extract_from_script_fresh_same:
  assumes "identified_ids self1 = {}" and "identified_ids self2 = {}"
  shows "fst (extract_from_script self1 (parser text)) = fst (extract_from_script self2 (parser text))"
  using assms by (simp add: extract_from_script_def split: prod.splits)

theorem extract_from_script_fresh_same_witness:
  "identified_ids (AceStreamScraper ''u'' 10 3) = {} \<and>
   identified_ids (AceStreamScraper ''v'' 20 0) = {} \<and>
   fst (extract_from_script (AceStreamScraper ''u'' 10 3) (script_element scenario_C))
     = fst (extract_from_script (AceStreamScraper ''v'' 20 0) (script_element scenario_C))"
proof -
  have 1: "identified_ids (AceStreamScraper ''u'' 10 3) = {}"
    and 2: "identified_ids (AceStreamScraper ''v'' 20 0) = {}"
    by (simp_all add: AceStreamScraper_def)
  from 1 2 extract_from_script_fresh_same [OF 1 2, of script_element scenario_C]
  show ?thesis by blast
qed

lemma link_at_rest:
  assumes "link_at s = Some (g, r)"
  shows "\<exists>u. s = u @ r \<and> u \<noteq> []"
proof -
  obtain name u where g: "g = (name, u)" by (cases g)
  from link_at_shape [OF assms [unfolded g]] obtain w where "s = ''{'' @ w @ r" 
    by (metis append.assoc)
  then have "s = (''{'' @ w) @ r \<and> ''{'' @ w \<noteq> []" by simp
  then show ?thesis by blast
qed

lemma link_matches_within:
  "g \<in> set (re_finditer link_at s) \<Longrightarrow> \<exists>pre s' r. s = pre @ s' \<and> link_at s' = Some (g, r)"
proof (induction "length s" arbitrary: s rule: less_induct)
  case less
  note mem = less.prems [unfolded re_finditer.simps [of link_at s]]
  have skip: "\<exists>pre s' r. s = pre @ s' \<and> link_at s' = Some (g, r)"
    if s: "s = c # t" and g: "g \<in> set (re_finditer link_at t)" for c t
  proof -
    from s have "length t < length s" by simp
    from less.hyps [OF this g] obtain pre s' r where "t = pre @ s'" "link_at s' = Some (g, r)"
      by blast
    with s have "s = (c # pre) @ s' \<and> link_at s' = Some (g, r)" by simp
    then show ?thesis by blast
  qed
  show ?case
  proof (cases "link_at s")
    case None
    with mem obtain c t where "s = c # t" "g \<in> set (re_finditer link_at t)"
      by (cases s) simp_all
    then show ?thesis by (rule skip)
  next
    case (Some a)
    obtain g' r where a: "a = (g', r)" by (cases a)
    from link_at_rest Some a obtain u where u: "s = u @ r" "u \<noteq> []" by blast
    then have lt: "length r < length s" by simp
    show ?thesis
    proof (cases "g = g'")
      case True
      with Some a have "s = [] @ s \<and> link_at s = Some (g, r)" by simp
      then show ?thesis by blast
    next
      case False
      with mem Some a lt have g: "g \<in> set (re_finditer link_at r)" by simp
      from less.hyps [OF lt g] obtain pre s' r' where "r = pre @ s'" "link_at s' = Some (g, r')"
        by blast
      with u have "s = (u @ pre) @ s' \<and> link_at s' = Some (g, r')" by simp
      then show ?thesis by blast
    qed
  qed
qed

lemma link_pairs_memD:
  assumes "(channel_id, name) \<in> set (link_pairs sp)"
  shows "\<exists>u. (name, u) \<in> set (links_matches sp) \<and> channel_id = drop (length ''acestream://'') u"
  using assms by (auto simp: link_pairs_def)

lemma links_matches_memD:
  assumes "g \<in> set (links_matches sp)"
  shows "\<exists>t content json. find_script sp = Some t \<and> tag_string t = Some content \<and>
           re_search json_at content = Some json \<and> g \<in> set (re_finditer link_at json)"
  using assms by (auto simp: links_matches_def split: option.splits) metis

text \<open>Every extracted pair comes from text of the record's shape.\<close>

lemma extracted_pairs_shape:
  assumes "fst (extract_from_script self sp) = Inr chs" and "(channel_id, name) \<in> set chs"
  shows \<open>newline \<notin> set name \<and> channel_id \<noteq> [] \<and> (\<forall>c\<in>set channel_id. is_word_or_digit c) \<and>
     (\<exists>t content json pre w1 w2 w3 w4 w5 r.
        find_script sp = Some t \<and> tag_string t = Some content \<and>
        re_search json_at content = Some json \<and>
        json = pre @ ''{'' @ w1 @ ''"name":'' @ w2 @ ''"'' @ name @ ''",'' @ w3 @ ''"url":'' @ w4
                 @ ''"acestream://'' @ channel_id @ ''"'' @ w5 @ ''}'' @ r \<and>
        (\<forall>c\<in>set (w1 @ w2 @ w3 @ w4 @ w5). is_space c))\<close>
proof -
  from extract_from_script_result [of self sp] assms(1)
  have "\<forall>c\<in>set chs. map_of (link_pairs sp) (fst c) = Some (snd c)" by auto
  with assms(2) have "map_of (link_pairs sp) channel_id = Some name" by fastforce
  then have "(channel_id, name) \<in> set (link_pairs sp)" by (rule map_of_SomeD)
  from link_pairs_memD [OF this] obtain u where
    m: "(name, u) \<in> set (links_matches sp)" and i: "channel_id = drop (length ''acestream://'') u"
    by blast
  from links_matches_memD [OF m] obtain t content json where
    d: "find_script sp = Some t" "tag_string t = Some content"
       "re_search json_at content = Some json" and
    f: "(name, u) \<in> set (re_finditer link_at json)"
    by blast
  from link_matches_within [OF f] obtain pre s' r where
    j: "json = pre @ s'" and l: "link_at s' = Some ((name, u), r)" by blast
  from link_at_shape [OF l] obtain w1 w2 w3 w4 w5 tok where
    s: \<open>s' = ''{'' @ w1 @ ''"name":'' @ w2 @ ''"'' @ name @ ''",'' @ w3 @ ''"url":'' @ w4 @ ''"''
          @ u @ ''"'' @ w5 @ ''}'' @ r\<close> and
    u: "u = ''acestream://'' @ tok" and tok: "tok \<noteq> []" "\<forall>c\<in>set tok. is_word_or_digit c" and
    nm: "\<forall>c\<in>set name. c \<noteq> newline" and
    ws: "\<forall>c\<in>set (w1 @ w2 @ w3 @ w4 @ w5). is_space c"
    by (elim exE conjE) (rule that, assumption+)
  from i u have c: "channel_id = tok" by simp
  have js: \<open>json = pre @ ''{'' @ w1 @ ''"name":'' @ w2 @ ''"'' @ name @ ''",'' @ w3 @ ''"url":'' @ w4
                 @ ''"acestream://'' @ channel_id @ ''"'' @ w5 @ ''}'' @ r\<close>
    unfolding j s u c by simp
  show ?thesis
  proof (intro conjI)
    show "newline \<notin> set name" using nm by blast
    show "channel_id \<noteq> []" using tok c by simp
    show "\<forall>c\<in>set channel_id. is_word_or_digit c" using tok c by simp
    show \<open>\<exists>t content json pre w1 w2 w3 w4 w5 r.
        find_script sp = Some t \<and> tag_string t = Some content \<and>
        re_search json_at content = Some json \<and>
        json = pre @ ''{'' @ w1 @ ''"name":'' @ w2 @ ''"'' @ name @ ''",'' @ w3 @ ''"url":'' @ w4
                 @ ''"acestream://'' @ channel_id @ ''"'' @ w5 @ ''}'' @ r \<and>
        (\<forall>c\<in>set (w1 @ w2 @ w3 @ w4 @ w5). is_space c)\<close>
      by (intro exI conjI) (rule d js ws)+
  qed
qed

lemma first_of_append: "xs \<noteq> [] \<Longrightarrow> first_of (xs @ ys) = first_of xs"
  by (cases xs) (simp_all add: first_of_def)

lemma first_of_concat_map:
  "first_of (concat (map F xs)) = Some y \<Longrightarrow>
     \<exists>as x bs. xs = as @ x # bs \<and> (\<forall>a\<in>set as. F a = []) \<and> first_of (F x) = Some y"
proof (induction xs)
  case Nil
  then show ?case by (simp add: first_of_def)
next
  case (Cons x xs)
  show ?case
  proof (cases "F x = []")
    case True
    with Cons.prems have "first_of (concat (map F xs)) = Some y" by simp
    from Cons.IH [OF this] obtain as x' bs where
      "xs = as @ x' # bs" "\<forall>a\<in>set as. F a = []" "first_of (F x') = Some y" by blast
    with True have "x # xs = (x # as) @ x' # bs \<and> (\<forall>a\<in>set (x # as). F a = []) \<and>
      first_of (F x') = Some y" by simp
    then show ?thesis by blast
  next
    case False
    with Cons.prems have "first_of (F x) = Some y" by (simp add: first_of_append)
    then have "x # xs = [] @ x # xs \<and> (\<forall>a\<in>set []. F a = []) \<and> first_of (F x) = Some y"
      by simp
    then show ?thesis by blast
  qed
qed

lemma lazy_star_split:
  "lazy_star p s = as @ r2 # bs \<Longrightarrow>
     \<exists>n. s = n @ r2 \<and> (\<forall>c\<in>set n. p c) \<and>
         (\<forall>n1 n2. n = n1 @ n2 \<and> n2 \<noteq> [] \<longrightarrow> n2 @ r2 \<in> set as)"
proof (induction s arbitrary: as)
  case Nil
  then have "as = []" "r2 = []" by (auto simp: Cons_eq_append_conv append_eq_Cons_conv)
  then show ?case by simp
next
  case (Cons c s)
  show ?case
  proof (cases as)
    case Nil
    with Cons.prems have "r2 = c # s" by simp
    then show ?thesis by simp
  next
    case (Cons a as')
    with Cons.prems have a: "a = c # s" and pc: "p c" and l: "lazy_star p s = as' @ r2 # bs"
      by (auto split: if_splits)
    from Cons.IH [OF l] obtain n where n: "s = n @ r2" "\<forall>c\<in>set n. p c"
      "\<forall>n1 n2. n = n1 @ n2 \<and> n2 \<noteq> [] \<longrightarrow> n2 @ r2 \<in> set as'" by blast
    have "\<forall>n1 n2. c # n = n1 @ n2 \<and> n2 \<noteq> [] \<longrightarrow> n2 @ r2 \<in> set as"
    proof (intro allI impI)
      fix n1 n2 assume h: "c # n = n1 @ n2 \<and> n2 \<noteq> []"
      show "n2 @ r2 \<in> set as"
      proof (cases n1)
        case Nil
        with h n(1) a Cons show ?thesis by simp
      next
        case (Cons d n1')
        with h have "n = n1' @ n2 \<and> n2 \<noteq> []" by simp
        with n(3) have "n2 @ r2 \<in> set as'" by blast
        with \<open>as = a # as'\<close> show ?thesis by simp
      qed
    qed
    with n pc have "c # s = (c # n) @ r2 \<and> (\<forall>x\<in>set (c # n). p x) \<and>
      (\<forall>n1 n2. c # n = n1 @ n2 \<and> n2 \<noteq> [] \<longrightarrow> n2 @ r2 \<in> set as)" by simp
    then show ?thesis by blast
  qed
qed

lemma link_head_shape:
  assumes "r1 \<in> set (link_head s)"
  shows \<open>\<exists>w1 w2. s = ''{'' @ w1 @ ''"name":'' @ w2 @ ''"'' @ r1 \<and> (\<forall>c\<in>set (w1 @ w2). is_space c)\<close>
  using assms unfolding link_head_def
  by (fastforce simp: seq_iff lit_iff dest!: star_sound)

text \<open>The name group is lazy.\<close>

lemma link_at_lazy:
  assumes fac: "\<And>x. link_at x = first_of (concat (map (\<lambda>r1. concat (map (\<lambda>r2.
       map (\<lambda>(u, r5). ((consumed r1 r2, u), r5)) (link_tail r2))
       (lazy_star dot r1))) (link_head x)))"
    and m: "link_at s = Some ((name, u), r)"
  shows \<open>\<exists>w1 w2 t. s = ''{'' @ w1 @ ''"name":'' @ w2 @ ''"'' @ name @ t \<and>
     (\<forall>c\<in>set (w1 @ w2). is_space c) \<and> (\<forall>c\<in>set name. c \<noteq> newline) \<and>
     first_of (link_tail t) = Some (u, r) \<and>
     (\<forall>n1 n2. name = n1 @ n2 \<and> n2 \<noteq> [] \<longrightarrow> link_tail (n2 @ t) = [])\<close>
proof -
  let ?F = "\<lambda>r1 r2. map (\<lambda>(u, r5). ((consumed r1 r2, u), r5)) (link_tail r2)"
  from first_of_concat_map [OF m [unfolded fac]]
  obtain as1 r1 bs1 where hl: "link_head s = as1 @ r1 # bs1" and
    g: "first_of (concat (map (?F r1) (lazy_star dot r1))) = Some ((name, u), r)"
    by blast
  from hl have h: "r1 \<in> set (link_head s)" by simp
  from first_of_concat_map [OF g] obtain as r2 bs where
    l: "lazy_star dot r1 = as @ r2 # bs" and e: "\<forall>a\<in>set as. ?F r1 a = []" and
    f: "first_of (?F r1 r2) = Some ((name, u), r)" by blast
  from lazy_star_split [OF l] obtain n where n: "r1 = n @ r2" "\<forall>c\<in>set n. dot c"
    "\<forall>n1 n2. n = n1 @ n2 \<and> n2 \<noteq> [] \<longrightarrow> n2 @ r2 \<in> set as" by blast
  from f have nm: "name = consumed r1 r2" and t: "first_of (link_tail r2) = Some (u, r)"
    by (auto simp: first_of_def split: list.splits)
  from nm n(1) have name: "name = n" by (simp add: consumed_append)
  from link_head_shape [OF h] obtain w1 w2 where
    s: \<open>s = ''{'' @ w1 @ ''"name":'' @ w2 @ ''"'' @ r1\<close> and ws: "\<forall>c\<in>set (w1 @ w2). is_space c"
    by blast
  have lazy: "\<forall>n1 n2. name = n1 @ n2 \<and> n2 \<noteq> [] \<longrightarrow> link_tail (n2 @ r2) = []"
  proof (intro allI impI)
    fix n1 n2 assume "name = n1 @ n2 \<and> n2 \<noteq> []"
    with n(3) name have "n2 @ r2 \<in> set as" by blast
    with e have "?F r1 (n2 @ r2) = []" by blast
    then show "link_tail (n2 @ r2) = []" by simp
  qed
  have \<open>s = ''{'' @ w1 @ ''"name":'' @ w2 @ ''"'' @ name @ r2\<close>
    unfolding s n(1) name by simp
  moreover have "\<forall>c\<in>set name. c \<noteq> newline" using n(2) name by (simp add: dot_def)
  ultimately show ?thesis using ws t lazy by blast
qed

lemma seq_lit: "seq (lit l) K (l @ y) = K y"
  by (simp add: seq_def lit_def)

lemma cat_Cons: "cat (m # ms) = seq m (cat ms)"
  by (rule ext) simp

lemma cat_Nil: "cat [] = (\<lambda>s. [s])"
  by (rule ext) simp

lemma star_alternatives:
  assumes "\<forall>c\<in>set w. p c" and "y = [] \<or> \<not> p (hd y)"
  shows "\<exists>alts. star p (w @ y) = y # alts \<and> (\<forall>a\<in>set alts. a \<noteq> [] \<and> p (hd a))"
  using assms
proof (induction w)
  case Nil
  then show ?case by (cases y) auto
next
  case (Cons c w)
  then obtain alts where "star p (w @ y) = y # alts" "\<forall>a\<in>set alts. a \<noteq> [] \<and> p (hd a)"
    by auto
  with Cons.prems have "star p ((c # w) @ y) = y # (alts @ [c # w @ y]) \<and>
    (\<forall>a\<in>set (alts @ [c # w @ y]). a \<noteq> [] \<and> p (hd a))" by simp
  then show ?case by blast
qed

lemma lit_mismatch: "l \<noteq> [] \<Longrightarrow> a \<noteq> [] \<Longrightarrow> hd a \<noteq> hd l \<Longrightarrow> lit l a = []"
  by (cases l; cases a) (auto simp: lit_def)

lemma seq_star_lit:
  assumes "\<forall>c\<in>set w. p c" and "l \<noteq> []" and "\<not> p (hd l)"
  shows "seq (star p) (seq (lit l) K) (w @ l @ y) = K y"
proof -
  from assms(2,3) have "l @ y = [] \<or> \<not> p (hd (l @ y))" by simp
  from star_alternatives [OF assms(1) this] obtain alts where
    s: "star p (w @ l @ y) = (l @ y) # alts" and a: "\<forall>a\<in>set alts. a \<noteq> [] \<and> p (hd a)"
    by blast
  have "seq (lit l) K a = []" if "a \<in> set alts" for a
  proof -
    from that a have "a \<noteq> []" "p (hd a)" by auto
    with assms(3) have "hd a \<noteq> hd l" by auto
    with assms(2) \<open>a \<noteq> []\<close> have "lit l a = []" by (simp add: lit_mismatch)
    then show ?thesis by (simp add: seq_def)
  qed
  then have "concat (map (seq (lit l) K) alts) = []" by simp
  then show ?thesis by (simp add: seq_def [of "star p"] s seq_lit)
qed

lemma not_space_quote: "\<not> is_space (CHR 0x22)" "\<not> is_space CHR ''}''"
  by (simp_all add: is_space_def code_point_def)

lemma not_word_quote: "\<not> is_word_or_digit (CHR 0x22)"
  by (simp add: is_word_or_digit_def is_word_def is_digit_def code_point_def)

lemma link_head_exact:
  assumes "\<forall>c\<in>set (w1 @ w2). is_space c"
  shows \<open>link_head (''{'' @ w1 @ ''"name":'' @ w2 @ ''"'' @ r1) = [r1]\<close>
proof -
  from assms have 1: "\<forall>c\<in>set w1. is_space c" and 2: "\<forall>c\<in>set w2. is_space c" by auto
  show ?thesis
    unfolding link_head_def cat_Cons
    by (simp only: seq_lit seq_star_lit [OF 1] seq_star_lit [OF 2] not_space_quote
        list.sel list.distinct not_False_eq_True cat_Nil)
qed

lemma plus_alternatives:
  assumes "tok \<noteq> []" and "\<forall>c\<in>set tok. p c" and "y = [] \<or> \<not> p (hd y)"
  shows "\<exists>alts. plus p (tok @ y) = y # alts"
proof -
  from assms(1) obtain c tok' where t: "tok = c # tok'" by (cases tok) auto
  with assms(2) have "p c" "\<forall>c\<in>set tok'. p c" by auto
  from star_alternatives [OF this(2) assms(3)] obtain alts where "star p (tok' @ y) = y # alts"
    by blast
  with t \<open>p c\<close> show ?thesis by (simp add: plus_def)
qed

lemma seq_cat_Nil: "seq m (cat []) = m"
proof
  fix s
  have "concat (map (\<lambda>x. [x]) xs) = xs" for xs :: "string list"
    by (induction xs) auto
  then show "seq m (cat []) s = m s" by (simp add: seq_def cat_Nil)
qed

lemma link_tail_first:
  assumes ws: "\<forall>c\<in>set (w3 @ w4 @ w5). is_space c"
    and tok: "tok \<noteq> []" "\<forall>c\<in>set tok. is_word_or_digit c"
  shows \<open>\<exists>more. link_tail (''",'' @ w3 @ ''"url":'' @ w4 @ ''"acestream://'' @ tok @ ''"'' @ w5
            @ ''}'' @ r) = (''acestream://'' @ tok, r) # more\<close>
proof -
  from ws have 3: "\<forall>c\<in>set w3. is_space c" and 4: "\<forall>c\<in>set w4. is_space c"
    and 5: "\<forall>c\<in>set w5. is_space c" by auto
  let ?y = \<open>''"'' @ w5 @ ''}'' @ r\<close>
  let ?r3 = "''acestream://'' @ tok @ ?y"
  have mid: \<open>cat [lit ''",'', star is_space, lit ''"url":'', star is_space, lit ''"'']
      (''",'' @ w3 @ ''"url":'' @ w4 @ ''"'' @ ?r3) = [?r3]\<close>
    unfolding cat_Cons
    by (simp only: seq_lit seq_star_lit [OF 3] seq_star_lit [OF 4] not_space_quote
        list.sel list.distinct not_False_eq_True cat_Nil)
  have "?y = [] \<or> \<not> is_word_or_digit (hd ?y)" by (simp add: not_word_quote)
  from plus_alternatives [OF tok this] obtain alts where
    p: "plus is_word_or_digit (tok @ ?y) = ?y # alts" by blast
  have url: "cat [lit ''acestream://'', plus is_word_or_digit] ?r3 = ?y # alts"
    unfolding cat_Cons seq_cat_Nil by (simp only: seq_lit p)
  have post: \<open>cat [lit ''"'', star is_space, lit ''}''] ?y = [r]\<close>
    unfolding cat_Cons
    by (simp only: seq_lit seq_star_lit [OF 5] not_space_quote
        list.sel list.distinct not_False_eq_True cat_Nil)
  have c: "consumed ?r3 ?y = ''acestream://'' @ tok"
    using consumed_append [of "''acestream://'' @ tok" ?y] by simp
  have e: \<open>''",'' @ w3 @ ''"url":'' @ w4 @ ''"acestream://'' @ tok @ ''"'' @ w5 @ ''}'' @ r
      = ''",'' @ w3 @ ''"url":'' @ w4 @ ''"'' @ ?r3\<close> by simp
  have \<open>link_tail (''",'' @ w3 @ ''"url":'' @ w4 @ ''"acestream://'' @ tok @ ''"'' @ w5
            @ ''}'' @ r)
      = (''acestream://'' @ tok, r)
        # concat (map (\<lambda>r4. map (\<lambda>r5. (consumed ?r3 r4, r5))
            (cat [lit ''"'', star is_space, lit ''}''] r4)) alts)\<close>
    unfolding e link_tail_def mid
    by (simp only: url post c list.map concat.simps) simp
  then show ?thesis by (rule exI)
qed

lemma link_tail_prefix:
  assumes "link_tail x \<noteq> []"
  shows \<open>\<exists>y. x = ''",'' @ y\<close>
proof -
  from assms obtain e where "e \<in> set (link_tail x)" by (cases "link_tail x") auto
  then obtain r3 where
    \<open>r3 \<in> set (cat [lit ''",'', star is_space, lit ''"url":'', star is_space, lit ''"''] x)\<close>
    unfolding link_tail_def by auto
  then show ?thesis by (auto simp: seq_iff lit_iff)
qed

lemma lazy_star_hd: "\<exists>more. lazy_star p t = t # more"
  by (cases t) auto

lemma lazy_first:
  assumes "\<forall>c\<in>set n. p c"
    and "\<forall>n1 n2. n = n1 @ n2 \<and> n2 \<noteq> [] \<longrightarrow> F (n2 @ t) = []"
  shows "\<exists>more. concat (map F (lazy_star p (n @ t))) = F t @ more"
  using assms
proof (induction n)
  case Nil
  from lazy_star_hd obtain more where "lazy_star p t = t # more" by blast
  then show ?case by simp
next
  case (Cons c n)
  from Cons.prems(2) have "F ((c # n) @ t) = []" by blast
  moreover from Cons.prems(1) have "p c" "\<forall>c\<in>set n. p c" by auto
  moreover have "\<forall>n1 n2. n = n1 @ n2 \<and> n2 \<noteq> [] \<longrightarrow> F (n2 @ t) = []"
  proof (intro allI impI)
    fix n1 n2 assume "n = n1 @ n2 \<and> n2 \<noteq> []"
    then have "c # n = (c # n1) @ n2 \<and> n2 \<noteq> []" by simp
    with Cons.prems(2) show "F (n2 @ t) = []" by blast
  qed
  ultimately show ?case using Cons.IH by simp
qed

lemma no_quote_comma_no_tail:
  assumes \<open>\<forall>a b. name \<noteq> a @ ''",'' @ b\<close> and "name = n1 @ n2" and "n2 \<noteq> []"
  shows \<open>link_tail (n2 @ ''",'' @ z) = []\<close>
proof (rule ccontr)
  assume \<open>link_tail (n2 @ ''",'' @ z) \<noteq> []\<close>
  from link_tail_prefix [OF this] obtain y where y: \<open>n2 @ ''",'' @ z = ''",'' @ y\<close> by blast
  from assms(3) obtain c n2' where n2: "n2 = c # n2'" by (cases n2) auto
  show False
  proof (cases n2')
    case Nil
    with y n2 show False by simp
  next
    case (Cons d n2'')
    with y n2 have \<open>n2 = ''",'' @ n2''\<close> by simp
    with assms(2) have \<open>name = n1 @ ''",'' @ n2''\<close> by simp
    with assms(1) [rule_format, of n1 n2''] show False by simp
  qed
qed

lemma link_at_complete:
  assumes fac: "\<And>x. link_at x = first_of (concat (map (\<lambda>r1. concat (map (\<lambda>r2.
       map (\<lambda>(u, r5). ((consumed r1 r2, u), r5)) (link_tail r2))
       (lazy_star dot r1))) (link_head x)))"
    and ws: "\<forall>c\<in>set (w1 @ w2 @ w3 @ w4 @ w5). is_space c"
    and nl: "\<forall>c\<in>set name. c \<noteq> newline"
    and nq: \<open>\<forall>a b. name \<noteq> a @ ''",'' @ b\<close>
    and tok: "tok \<noteq> []" "\<forall>c\<in>set tok. is_word_or_digit c"
  shows \<open>link_at (''{'' @ w1 @ ''"name":'' @ w2 @ ''"'' @ name @ ''",'' @ w3 @ ''"url":'' @ w4
            @ ''"acestream://'' @ tok @ ''"'' @ w5 @ ''}'' @ r)
         = Some ((name, ''acestream://'' @ tok), r)\<close>
proof -
  let ?t = \<open>''",'' @ w3 @ ''"url":'' @ w4 @ ''"acestream://'' @ tok @ ''"'' @ w5 @ ''}'' @ r\<close>
  let ?r1 = "name @ ?t"
  let ?F = "\<lambda>r2. map (\<lambda>(u, r5). ((consumed ?r1 r2, u), r5)) (link_tail r2)"
  from ws have ws12: "\<forall>c\<in>set (w1 @ w2). is_space c" and ws345: "\<forall>c\<in>set (w3 @ w4 @ w5). is_space c"
    by auto
  have h: \<open>link_head (''{'' @ w1 @ ''"name":'' @ w2 @ ''"'' @ ?r1) = [?r1]\<close>
    by (rule link_head_exact [OF ws12])
  obtain more where t: "link_tail ?t = (''acestream://'' @ tok, r) # more"
    using link_tail_first [OF ws345 tok, of r] by (elim exE) (rule that, assumption)
  have d: "\<forall>c\<in>set name. dot c" using nl by (simp add: dot_def)
  have "\<forall>n1 n2. name = n1 @ n2 \<and> n2 \<noteq> [] \<longrightarrow> ?F (n2 @ ?t) = []"
  proof (intro allI impI)
    fix n1 n2 assume a: "name = n1 @ n2 \<and> n2 \<noteq> []"
    have \<open>link_tail (n2 @ ''",'' @ (w3 @ ''"url":'' @ w4 @ ''"acestream://'' @ tok @ ''"'' @ w5
            @ ''}'' @ r)) = []\<close>
    proof -
      from a have 1: "name = n1 @ n2" and 2: "n2 \<noteq> []" by simp_all
      show ?thesis by (rule no_quote_comma_no_tail [OF nq 1 2])
    qed
    then show "?F (n2 @ ?t) = []" by simp
  qed
  from lazy_first [OF d this] obtain more' where
    l: "concat (map ?F (lazy_star dot ?r1)) = ?F ?t @ more'"
    by (elim exE) (rule that, assumption)
  have f: "?F ?t = ((name, ''acestream://'' @ tok), r)
      # map (\<lambda>(u, r5). ((consumed ?r1 ?t, u), r5)) more"
    unfolding t using consumed_append [of name ?t] by simp
  show ?thesis
    unfolding fac h
    by (simp only: list.map concat.simps append_Nil2 l f) (simp add: first_of_def)
qed

lemma re_finditer_skip:
  "\<forall>k<length pre. m (drop k pre @ s) = None \<Longrightarrow> re_finditer m (pre @ s) = re_finditer m s"
proof (induction pre)
  case Nil
  show ?case by simp
next
  case (Cons c pre)
  from Cons.prems have "m (drop 0 (c # pre) @ s) = None" by blast
  then have n: "m (c # pre @ s) = None" by simp
  have "\<forall>k<length pre. m (drop k pre @ s) = None"
  proof (intro allI impI)
    fix k assume "k < length pre"
    then have "Suc k < length (c # pre)" by simp
    with Cons.prems have "m (drop (Suc k) (c # pre) @ s) = None" by blast
    then show "m (drop k pre @ s) = None" by simp
  qed
  with Cons.IH have "re_finditer m (pre @ s) = re_finditer m s" by blast
  with n show ?case by (simp add: re_finditer.simps [of m "c # pre @ s"])
qed

lemma re_finditer_link_match:
  assumes "link_at s = Some (g, r)"
  shows "re_finditer link_at s = g # re_finditer link_at r"
proof -
  from link_at_rest [OF assms] have "length r < length s" by auto
  with assms show ?thesis by (simp add: re_finditer.simps [of link_at s])
qed

lemma extract_first_record:
  assumes f: "find_script sp = Some tg" "tag_string tg = Some content"
      "re_search json_at content = Some (pre @ s)"
    and skip: "\<forall>k<length pre. link_at (drop k pre @ s) = None"
    and m: "link_at s = Some ((name, ''acestream://'' @ tok), r)"
    and new: "tok \<notin> identified_ids self"
  shows "\<exists>rest ids. links_loop (links_matches sp) [] (identified_ids self)
           = (Inr ((tok, name) # rest), ids)"
proof -
  let ?ms = "re_finditer link_at r"
  have lm: "links_matches sp = (name, ''acestream://'' @ tok) # ?ms"
    using f by (simp add: links_matches_def re_finditer_skip [OF skip] re_finditer_link_match [OF m])
  from link_at_shape [OF m] have tok: "tok \<noteq> []" "\<forall>c\<in>set tok. is_word_or_digit c"
    by auto
  have idx: "py_index (py_split ''acestream://'' (''acestream://'' @ tok)) 1 = Inr tok"
    using tok(2) by (rule channel_id_of_url)
  from links_matches_valid [of sp] lm have v: "\<forall>m\<in>set ?ms.
     \<exists>tok. snd m = ''acestream://'' @ tok \<and> tok \<noteq> [] \<and> (\<forall>c\<in>set tok. is_word_or_digit c)"
    by simp
  from links_loop_first_occurrences [OF v, of "[(tok, name)]" "insert tok (identified_ids self)"]
  obtain rest where "links_loop ?ms [(tok, name)] (insert tok (identified_ids self))
      = (Inr ([(tok, name)] @ rest), insert tok (identified_ids self) \<union> fst ` set rest)"
    by blast
  with idx tok(1) new have "links_loop (links_matches sp) [] (identified_ids self)
      = (Inr ((tok, name) # rest), insert tok (identified_ids self) \<union> fst ` set rest)"
    unfolding lm by simp
  then show ?thesis by (intro exI)
qed

text \<open>
  Claim C8, amended. A record whose name contains double quotes is matched, not
  skipped. If the name has no newline and no \<^verbatim>\<open>",\<close> in it, the pattern matches the
  record text and captures exactly that name, quotes included. In general the name
  group is lazy: the captured name is a stretch of characters other than newline that
  ends at the first place from which the rest of the pattern matches, not at the next
  double quote. The first text of the \<^verbatim>\<open>linksData\<close> literal that the pattern
  matches is extracted, when its identifier has not been seen; and no extracted name
  contains a newline.
\<close>

theorem record_pattern_lazy_name:
  \<open>((\<forall>c\<in>set (w1 @ w2 @ w3 @ w4 @ w5). is_space c) \<and> (\<forall>c\<in>set name. c \<noteq> newline) \<and>
    (\<forall>a b. name \<noteq> a @ ''",'' @ b) \<and> tok \<noteq> [] \<and> (\<forall>c\<in>set tok. is_word_or_digit c)
    \<longrightarrow> link_at (''{'' @ w1 @ ''"name":'' @ w2 @ ''"'' @ name @ ''",'' @ w3 @ ''"url":'' @ w4
                 @ ''"acestream://'' @ tok @ ''"'' @ w5 @ ''}'' @ r)
          = Some ((name, ''acestream://'' @ tok), r)) \<and>
   (link_at s = Some ((name, u), r)
    \<longrightarrow> (\<exists>v1 v2 t. s = ''{'' @ v1 @ ''"name":'' @ v2 @ ''"'' @ name @ t \<and>
          (\<forall>c\<in>set (v1 @ v2). is_space c) \<and> (\<forall>c\<in>set name. c \<noteq> newline) \<and>
          first_of (link_tail t) = Some (u, r) \<and>
          (\<forall>n1 n2. name = n1 @ n2 \<and> n2 \<noteq> [] \<longrightarrow> link_tail (n2 @ t) = []))) \<and>
   (find_script sp = Some tg \<and> tag_string tg = Some content \<and>
    re_search json_at content = Some (pre @ s) \<and>
    (\<forall>k<length pre. link_at (drop k pre @ s) = None) \<and>
    link_at s = Some ((name, ''acestream://'' @ tok), r) \<and> tok \<notin> identified_ids self
    \<longrightarrow> (\<exists>rest. fst (extract_from_script self sp) = Inr ((tok, name) # rest))) \<and>
   (fst (extract_from_script self sp) = Inr chs \<and> (channel_id, name) \<in> set chs
    \<longrightarrow> newline \<notin> set name)\<close>
proof -
  have fac: "link_at x = first_of (concat (map (\<lambda>r1. concat (map (\<lambda>r2.
       map (\<lambda>(u, r5). ((consumed r1 r2, u), r5)) (link_tail r2))
       (lazy_star dot r1))) (link_head x)))" for x
    by (simp add: link_at_def link_head_def link_tail_def map_concat comp_def)
  show ?thesis
  proof (intro conjI impI)
  assume \<open>(\<forall>c\<in>set (w1 @ w2 @ w3 @ w4 @ w5). is_space c) \<and> (\<forall>c\<in>set name. c \<noteq> newline) \<and>
    (\<forall>a b. name \<noteq> a @ ''",'' @ b) \<and> tok \<noteq> [] \<and> (\<forall>c\<in>set tok. is_word_or_digit c)\<close>
  then have 1: "\<forall>c\<in>set (w1 @ w2 @ w3 @ w4 @ w5). is_space c" and 2: "\<forall>c\<in>set name. c \<noteq> newline"
    and 3: \<open>\<forall>a b. name \<noteq> a @ ''",'' @ b\<close> and 4: "tok \<noteq> []"
    and 5: "\<forall>c\<in>set tok. is_word_or_digit c" by simp_all
  show \<open>link_at (''{'' @ w1 @ ''"name":'' @ w2 @ ''"'' @ name @ ''",'' @ w3 @ ''"url":'' @ w4
                 @ ''"acestream://'' @ tok @ ''"'' @ w5 @ ''}'' @ r)
          = Some ((name, ''acestream://'' @ tok), r)\<close>
    by (rule link_at_complete [OF fac 1 2 3 4 5])
next
  assume "link_at s = Some ((name, u), r)"
  then show \<open>\<exists>v1 v2 t. s = ''{'' @ v1 @ ''"name":'' @ v2 @ ''"'' @ name @ t \<and>
          (\<forall>c\<in>set (v1 @ v2). is_space c) \<and> (\<forall>c\<in>set name. c \<noteq> newline) \<and>
          first_of (link_tail t) = Some (u, r) \<and>
          (\<forall>n1 n2. name = n1 @ n2 \<and> n2 \<noteq> [] \<longrightarrow> link_tail (n2 @ t) = [])\<close>
    by (rule link_at_lazy [OF fac])
next
  assume "find_script sp = Some tg \<and> tag_string tg = Some content \<and>
    re_search json_at content = Some (pre @ s) \<and>
    (\<forall>k<length pre. link_at (drop k pre @ s) = None) \<and>
    link_at s = Some ((name, ''acestream://'' @ tok), r) \<and> tok \<notin> identified_ids self"
  then have 1: "find_script sp = Some tg" and 2: "tag_string tg = Some content"
    and 3: "re_search json_at content = Some (pre @ s)"
    and 4: "\<forall>k<length pre. link_at (drop k pre @ s) = None"
    and 5: "link_at s = Some ((name, ''acestream://'' @ tok), r)"
    and 6: "tok \<notin> identified_ids self" by simp_all
  from extract_first_record [OF 1 2 3 4 5 6] obtain rest ids where
    "links_loop (links_matches sp) [] (identified_ids self) = (Inr ((tok, name) # rest), ids)"
    by (elim exE) (rule that, assumption)
  then have "fst (extract_from_script self sp) = Inr ((tok, name) # rest)"
    by (simp add: extract_from_script_def)
  then show "\<exists>rest. fst (extract_from_script self sp) = Inr ((tok, name) # rest)"
    by (rule exI)
next
  assume "fst (extract_from_script self sp) = Inr chs \<and> (channel_id, name) \<in> set chs"
  then have 1: "fst (extract_from_script self sp) = Inr chs" and 2: "(channel_id, name) \<in> set chs"
    by simp_all
  from extracted_pairs_shape [OF 1 2] show "newline \<notin> set name" by (rule conjunct1)
  qed
qed

lemma no_quote_comma:
  assumes \<open>re_search (\<lambda>x. first_of (map (\<lambda>_. ()) (lit ''",'' x))) name = None\<close>
  shows \<open>\<forall>a b. name \<noteq> a @ ''",'' @ b\<close>
proof (intro allI notI)
  fix a b assume n: \<open>name = a @ ''",'' @ b\<close>
  have \<open>first_of (map (\<lambda>_. ()) (lit ''",'' (''",'' @ b))) \<noteq> None\<close>
    by (simp add: lit_def first_of_def)
  with n have \<open>\<exists>pre suf. name = pre @ suf \<and> first_of (map (\<lambda>_. ()) (lit ''",'' suf)) \<noteq> None\<close>
    by blast
  then have \<open>re_search (\<lambda>x. first_of (map (\<lambda>_. ()) (lit ''",'' x))) name \<noteq> None\<close>
    by (simp only: re_search_iff)
  with assms show False by simp
qed

lemma quoted_record_facts:
  \<open>quoted_record = ''{'' @ [] @ ''"name":'' @ '' '' @ ''"'' @ ''A "B" C'' @ ''",'' @ '' ''
      @ ''"url":'' @ '' '' @ ''"acestream://'' @ ''abc'' @ ''"'' @ [] @ ''}'' @ []\<close>
  \<open>re_search (\<lambda>x. first_of (map (\<lambda>_. ()) (lit ''",'' x))) ''A "B" C'' = None\<close>
  \<open>find_script (script_element quoted_name_page)
     = Some \<lparr>tag_name = ''script'', tag_string = Some quoted_name_page\<rparr>\<close>
  \<open>re_search json_at quoted_name_page = Some (''{"links": ['' @ quoted_record @ after_quoted_record)\<close>
  \<open>\<forall>k\<in>set [0..<length ''{"links": ['']. link_at (drop k ''{"links": ['' @ quoted_record @ after_quoted_record) = None\<close>
  by code_simp+

theorem record_pattern_lazy_name_witness:
  \<open>link_at (quoted_record @ after_quoted_record)
     = Some ((''A "B" C'', ''acestream://abc''), after_quoted_record) \<and>
   (\<exists>rest. fst (extract_from_script (AceStreamScraper ''u'' 10 3) (script_element quoted_name_page))
      = Inr ((''abc'', ''A "B" C'') # rest)) \<and>
   fst (extract_from_script (AceStreamScraper ''u'' 10 3) (script_element quoted_name_page))
      = Inr [(''abc'', ''A "B" C''), (''d4'', ''D'')]\<close>
proof -
  note f = quoted_record_facts
  have h: \<open>(\<forall>c\<in>set ([] @ '' '' @ '' '' @ '' '' @ []). is_space c) \<and>
    (\<forall>c\<in>set ''A "B" C''. c \<noteq> newline) \<and>
    (\<forall>a b. ''A "B" C'' \<noteq> a @ ''",'' @ b) \<and> ''abc'' \<noteq> [] \<and>
    (\<forall>c\<in>set ''abc''. is_word_or_digit c)\<close>
    using no_quote_comma [OF f(2)]
    by (simp add: is_space_def is_word_or_digit_def is_word_def is_digit_def code_point_def
        newline_def)
  have 1: \<open>link_at (quoted_record @ after_quoted_record) = Some ((''A "B" C'', ''acestream://abc''), after_quoted_record)\<close>
    using record_pattern_lazy_name [THEN conjunct1, THEN mp, OF h, of after_quoted_record]
    unfolding f(1) by simp
  have k: \<open>\<forall>k<length ''{"links": [''. link_at (drop k ''{"links": ['' @ quoted_record @ after_quoted_record) = None\<close>
  proof (intro allI impI)
    fix k assume \<open>k < length ''{"links": [''\<close>
    then have \<open>k \<in> set [0..<length ''{"links": ['']\<close>
      by (simp only: set_upt atLeastLessThan_iff le0 simp_thms)
    then show \<open>link_at (drop k ''{"links": ['' @ quoted_record @ after_quoted_record) = None\<close>
      by (rule f(5) [THEN bspec])
  qed
  have c: \<open>find_script (script_element quoted_name_page)
      = Some \<lparr>tag_name = ''script'', tag_string = Some quoted_name_page\<rparr> \<and>
    tag_string \<lparr>tag_name = ''script'', tag_string = Some quoted_name_page\<rparr> = Some quoted_name_page \<and>
    re_search json_at quoted_name_page = Some (''{"links": ['' @ quoted_record @ after_quoted_record) \<and>
    (\<forall>k<length ''{"links": [''. link_at (drop k ''{"links": ['' @ quoted_record @ after_quoted_record) = None) \<and>
    link_at (quoted_record @ after_quoted_record) = Some ((''A "B" C'', ''acestream://'' @ ''abc''), after_quoted_record) \<and>
    ''abc'' \<notin> identified_ids (AceStreamScraper ''u'' 10 3)\<close>
    using f(3,4) k 1 by (simp add: AceStreamScraper_def)
  have 2: \<open>\<exists>rest. fst (extract_from_script (AceStreamScraper ''u'' 10 3) (script_element quoted_name_page))
      = Inr ((''abc'', ''A "B" C'') # rest)\<close>
    by (rule record_pattern_lazy_name [THEN conjunct2, THEN conjunct2, THEN conjunct1, THEN mp])
       (rule c)
  have 3: \<open>fst (extract_from_script (AceStreamScraper ''u'' 10 3) (script_element quoted_name_page))
      = Inr [(''abc'', ''A "B" C''), (''d4'', ''D'')]\<close>
    by code_simp
  from 1 2 3 show ?thesis by (intro conjI)
qed

text \<open>
  The claim as stated fails: the record below has inner quotes in its name, the pattern
  matches it, and the extracted name contains double quotes.
\<close>

theorem record_pattern_lazy_name_counterexample:
  \<open>fst (extract_from_script (AceStreamScraper ''u'' 10 3) (script_element quoted_name_page))
     = Inr [(''abc'', ''A "B" C''), (''d4'', ''D'')] \<and>
   CHR 0x22 \<in> set ''A "B" C''\<close>
  by code_simp

section \<open>The retry loop\<close>

lemma extract_from_script_total:
  "\<exists>chs ids. extract_from_script self sp = (Inr chs, self\<lparr>identified_ids := ids\<rparr>) \<and>
     identified_ids self \<subseteq> ids"
  using extract_from_script_result [of self sp] by blast

lemma attempt_frame:
  assumes "attempt parser self nw = (res, self', nw')"
  shows "url self' = url self" "timeout self' = timeout self" "retries self' = retries self"
    "identified_ids self \<subseteq> identified_ids self'"
    "nw' = nw\<lparr>requests := requests nw @ [(url self, timeout self)]\<rparr>"
proof -
  have "url self' = url self \<and> timeout self' = timeout self \<and> retries self' = retries self \<and>
    identified_ids self \<subseteq> identified_ids self' \<and>
    nw' = nw\<lparr>requests := requests nw @ [(url self, timeout self)]\<rparr>"
  proof (cases "outcome nw (length (requests nw)) (url self) (timeout self)")
    case (Inl e)
    with assms show ?thesis by (auto simp: attempt_def fetch_content_def)
  next
    case (Inr content)
    show ?thesis
    proof (cases "parser content")
      case rejected: (Inl e)
      with Inr assms show ?thesis by (auto simp: attempt_def fetch_content_def)
    next
      case parsed: (Inr sp)
      from extract_from_script_total [of self sp] obtain chs ids where
        "extract_from_script self sp = (Inr chs, self\<lparr>identified_ids := ids\<rparr>)"
        "identified_ids self \<subseteq> ids" by blast
      with Inr parsed assms show ?thesis by (auto simp: attempt_def fetch_content_def)
    qed
  qed
  then show "url self' = url self" "timeout self' = timeout self" "retries self' = retries self"
    "identified_ids self \<subseteq> identified_ids self'"
    "nw' = nw\<lparr>requests := requests nw @ [(url self, timeout self)]\<rparr>"
    by blast+
qed

lemma scrape_loop_requests:
  "\<exists>m\<le>nat (retries_left + 1).
     requests (snd (snd (scrape_loop parser self nw channels retries_left)))
       = requests nw @ map (\<lambda>j. (url self, timeout self + 5 * int j)) [0..<m]"
proof (induction parser self nw channels retries_left rule: scrape_loop.induct)
  case (1 parser self nw channels retries_left)
  show ?case
  proof (cases "0 \<le> retries_left")
    case False
    then have "scrape_loop parser self nw channels retries_left = (channels, self, nw)"
      by (simp add: scrape_loop.simps)
    then show ?thesis by (intro exI [of _ 0]) simp
  next
    case True
    obtain res self' nw' where a: "attempt parser self nw = (res, self', nw')"
      by (cases "attempt parser self nw") auto
    note fr = attempt_frame [OF a]
    let ?one = "requests nw @ map (\<lambda>j. (url self, timeout self + 5 * int j)) [0..<1]"
    have one: "requests nw' = ?one" using fr(5) by simp
    show ?thesis
    proof (cases res)
      case (Inr script_channels)
      with True a have "scrape_loop parser self nw channels retries_left
          = (channels @ script_channels, self', nw')"
        by (simp add: scrape_loop.simps [of parser self nw])
      with one True show ?thesis by (intro exI [of _ 1]) simp
    next
      case (Inl e)
      show ?thesis
      proof (cases "retries_left - 1 < 0")
        case stop: True
        with Inl True a have "scrape_loop parser self nw channels retries_left
            = (channels, self', nw')"
          by (simp add: scrape_loop.simps [of parser self nw])
        with one True show ?thesis by (intro exI [of _ 1]) simp
      next
        case go: False
        let ?self = "self'\<lparr>timeout := timeout self' + 5\<rparr>"
        from Inl True a go have s: "scrape_loop parser self nw channels retries_left
            = scrape_loop parser ?self nw' channels (retries_left - 1)"
          by (simp add: scrape_loop.simps [of parser self nw])
        have "\<exists>m\<le>nat (retries_left - 1 + 1).
            requests (snd (snd (scrape_loop parser ?self nw' channels (retries_left - 1))))
              = requests nw' @ map (\<lambda>j. (url ?self, timeout ?self + 5 * int j)) [0..<m]"
          by (rule "1.IH" [of res "(self', nw')" e self' nw']) (use True a Inl go in simp_all)
        then obtain m where m: "m \<le> nat (retries_left - 1 + 1)" and
          r: "requests (snd (snd (scrape_loop parser ?self nw' channels (retries_left - 1))))
                = requests nw' @ map (\<lambda>j. (url ?self, timeout ?self + 5 * int j)) [0..<m]"
          by blast
        have "map (\<lambda>j. (url self, timeout self + 5 * int j)) [0..<Suc m]
            = (url self, timeout self) # map (\<lambda>j. (url self, timeout self + 5 + 5 * int j)) [0..<m]"
          by (simp add: map_upt_Suc del: upt_Suc)
        with r fr have "requests (snd (snd (scrape_loop parser self nw channels retries_left)))
            = requests nw @ map (\<lambda>j. (url self, timeout self + 5 * int j)) [0..<Suc m]"
          by (simp add: s del: upt_Suc)
        moreover from m go have "Suc m \<le> nat (retries_left + 1)" by simp
        ultimately show ?thesis by blast
      qed
    qed
  qed
qed

lemma attempt_fails_attempt:
  assumes "attempt_fails parser (outcome nw (length (requests nw)) (url self) (timeout self))"
  shows "\<exists>e. attempt parser self nw
           = (Inl e, self, nw\<lparr>requests := requests nw @ [(url self, timeout self)]\<rparr>)"
  using assms
  by (auto simp: attempt_fails_def attempt_def fetch_content_def split: sum.splits)

lemma scrape_loop_success:
  assumes "int k \<le> retries_left"
    and "\<forall>j<k. attempt_fails parser
           (outcome nw (length (requests nw) + j) (url self) (timeout self + 5 * int j))"
    and "outcome nw (length (requests nw) + k) (url self) (timeout self + 5 * int k) = Inr content"
    and "parser content = Inr sp"
  shows "\<exists>chs self'.
     extract_from_script (self\<lparr>timeout := timeout self + 5 * int k\<rparr>) sp = (Inr chs, self') \<and>
     scrape_loop parser self nw channels retries_left
       = (channels @ chs, self',
          nw\<lparr>requests := requests nw @ map (\<lambda>j. (url self, timeout self + 5 * int j)) [0..<Suc k]\<rparr>)"
  using assms
proof (induction k arbitrary: self nw retries_left)
  case 0
  from extract_from_script_total [of self sp] obtain chs ids where
    e: "extract_from_script self sp = (Inr chs, self\<lparr>identified_ids := ids\<rparr>)"
    by blast
  from 0 have "attempt parser self nw
      = (Inr chs, self\<lparr>identified_ids := ids\<rparr>, nw\<lparr>requests := requests nw @ [(url self, timeout self)]\<rparr>)"
    by (simp add: attempt_def fetch_content_def e)
  with 0 e show ?case
    by (simp add: scrape_loop.simps [of parser self nw])
next
  case (Suc k)
  from Suc.prems(2) have
    "attempt_fails parser (outcome nw (length (requests nw)) (url self) (timeout self))"
    by fastforce
  let ?nw = "nw\<lparr>requests := requests nw @ [(url self, timeout self)]\<rparr>"
  let ?self = "self\<lparr>timeout := timeout self + 5\<rparr>"
  from attempt_fails_attempt [OF \<open>attempt_fails parser _\<close>]
  obtain e where a: "attempt parser self nw = (Inl e, self, ?nw)" by blast
  from Suc.prems(1) have go: "0 \<le> retries_left" "\<not> retries_left - 1 < 0" by simp_all
  with a have s: "scrape_loop parser self nw channels retries_left
      = scrape_loop parser ?self ?nw channels (retries_left - 1)"
    by (simp add: scrape_loop.simps [of parser self nw])
  have 1: "int k \<le> retries_left - 1" using Suc.prems(1) by simp
  have 2: "\<forall>j<k. attempt_fails parser
      (outcome ?nw (length (requests ?nw) + j) (url ?self) (timeout ?self + 5 * int j))"
  proof (intro allI impI)
    fix j assume "j < k"
    then have "Suc j < Suc k" by simp
    with Suc.prems(2) have "attempt_fails parser
      (outcome nw (length (requests nw) + Suc j) (url self) (timeout self + 5 * int (Suc j)))"
      by blast
    then show "attempt_fails parser
      (outcome ?nw (length (requests ?nw) + j) (url ?self) (timeout ?self + 5 * int j))"
      by (simp add: algebra_simps)
  qed
  have 3: "outcome ?nw (length (requests ?nw) + k) (url ?self) (timeout ?self + 5 * int k) = Inr content"
    using Suc.prems(3) by (simp add: algebra_simps)
  have t: "?self\<lparr>timeout := timeout ?self + 5 * int k\<rparr> = self\<lparr>timeout := timeout self + 5 * int (Suc k)\<rparr>"
    by (simp add: algebra_simps)
  have m: "[(url self, timeout self)] @ map (\<lambda>j. (url ?self, timeout ?self + 5 * int j)) [0..<Suc k]
      = map (\<lambda>j. (url self, timeout self + 5 * int j)) [0..<Suc (Suc k)]"
    by (simp add: map_upt_Suc [of _ "Suc k"] algebra_simps del: upt_Suc)
  from Suc.IH [OF 1 2 3 Suc.prems(4)] obtain chs self' where
    "extract_from_script (?self\<lparr>timeout := timeout ?self + 5 * int k\<rparr>) sp = (Inr chs, self')"
    "scrape_loop parser ?self ?nw channels (retries_left - 1)
       = (channels @ chs, self',
          ?nw\<lparr>requests := requests ?nw @ map (\<lambda>j. (url ?self, timeout ?self + 5 * int j)) [0..<Suc k]\<rparr>)"
    by blast
  then have "extract_from_script (self\<lparr>timeout := timeout self + 5 * int (Suc k)\<rparr>) sp
       = (Inr chs, self')"
    "scrape_loop parser self nw channels retries_left
       = (channels @ chs, self',
          nw\<lparr>requests := requests nw @ map (\<lambda>j. (url self, timeout self + 5 * int j)) [0..<Suc (Suc k)]\<rparr>)"
    unfolding s t using m by simp_all
  then show ?case by blast
qed

lemma scrape_loop_fail:
  assumes "\<forall>j<nat (retries_left + 1).
     \<exists>e. outcome nw (length (requests nw) + j) (url self) (timeout self + 5 * int j) = Inl e"
  shows "scrape_loop parser self nw channels retries_left
     = (channels, self\<lparr>timeout := timeout self + 5 * max 0 retries_left\<rparr>,
        nw\<lparr>requests := requests nw
             @ map (\<lambda>j. (url self, timeout self + 5 * int j)) [0..<nat (retries_left + 1)]\<rparr>)"
  using assms
proof (induction "nat (retries_left + 1)" arbitrary: self nw retries_left)
  case 0
  then have "\<not> 0 \<le> retries_left" by simp
  then show ?case by (simp add: scrape_loop.simps [of parser self nw])
next
  case (Suc n)
  then have ge: "0 \<le> retries_left" by simp
  from Suc.hyps(2) Suc.prems obtain e where
    f: "outcome nw (length (requests nw)) (url self) (timeout self) = Inl e" by fastforce
  let ?nw = "nw\<lparr>requests := requests nw @ [(url self, timeout self)]\<rparr>"
  let ?self = "self\<lparr>timeout := timeout self + 5\<rparr>"
  from f have a: "attempt parser self nw = (Inl e, self, ?nw)"
    by (simp add: attempt_def fetch_content_def)
  show ?case
  proof (cases "retries_left - 1 < 0")
    case True
    with ge have z: "retries_left = 0" by simp
    with a show ?thesis by (simp add: scrape_loop.simps [of parser self nw])
  next
    case False
    with ge a have s: "scrape_loop parser self nw channels retries_left
        = scrape_loop parser ?self ?nw channels (retries_left - 1)"
      by (simp add: scrape_loop.simps [of parser self nw])
    have n: "n = nat (retries_left - 1 + 1)" using Suc.hyps(2) by simp
    have p: "\<forall>j<nat (retries_left - 1 + 1).
        \<exists>e. outcome ?nw (length (requests ?nw) + j) (url ?self) (timeout ?self + 5 * int j) = Inl e"
    proof (intro allI impI)
      fix j assume "j < nat (retries_left - 1 + 1)"
      then have "Suc j < nat (retries_left + 1)" by simp
      with Suc.prems obtain e where
        "outcome nw (length (requests nw) + Suc j) (url self) (timeout self + 5 * int (Suc j)) = Inl e"
        by blast
      then show "\<exists>e. outcome ?nw (length (requests ?nw) + j) (url ?self) (timeout ?self + 5 * int j) = Inl e"
        by (simp add: algebra_simps)
    qed
    have t: "?self\<lparr>timeout := timeout ?self + 5 * max 0 (retries_left - 1)\<rparr>
        = self\<lparr>timeout := timeout self + 5 * max 0 retries_left\<rparr>"
      using False by (simp add: algebra_simps max_def)
    have u: "nat (retries_left + 1) = Suc (nat (retries_left - 1 + 1))" using False by simp
    have m: "[(url self, timeout self)]
          @ map (\<lambda>j. (url ?self, timeout ?self + 5 * int j)) [0..<nat (retries_left - 1 + 1)]
        = map (\<lambda>j. (url self, timeout self + 5 * int j)) [0..<nat (retries_left + 1)]"
      unfolding u by (simp add: map_upt_Suc algebra_simps del: upt_Suc)
    show ?thesis
      unfolding s Suc.hyps(1) [OF n p] t using m by simp
  qed
qed

lemma scrape_loop_ids:
  "identified_ids self
     \<subseteq> identified_ids (fst (snd (scrape_loop parser self nw channels retries_left)))"
proof (induction parser self nw channels retries_left rule: scrape_loop.induct)
  case (1 parser self nw channels retries_left)
  show ?case
  proof (cases "0 \<le> retries_left")
    case False
    then show ?thesis by (simp add: scrape_loop.simps [of parser self nw])
  next
    case True
    obtain res self' nw' where a: "attempt parser self nw = (res, self', nw')"
      by (cases "attempt parser self nw") auto
    note fr = attempt_frame [OF a]
    show ?thesis
    proof (cases res)
      case (Inr script_channels)
      with True a fr(4) show ?thesis by (simp add: scrape_loop.simps [of parser self nw])
    next
      case (Inl e)
      show ?thesis
      proof (cases "retries_left - 1 < 0")
        case stop: True
        with Inl True a fr(4) show ?thesis by (simp add: scrape_loop.simps [of parser self nw])
      next
        case go: False
        let ?self = "self'\<lparr>timeout := timeout self' + 5\<rparr>"
        from Inl True a go have s: "scrape_loop parser self nw channels retries_left
            = scrape_loop parser ?self nw' channels (retries_left - 1)"
          by (simp add: scrape_loop.simps [of parser self nw])
        have "identified_ids ?self
            \<subseteq> identified_ids (fst (snd (scrape_loop parser ?self nw' channels (retries_left - 1))))"
          by (rule "1.IH" [of res "(self', nw')" e self' nw']) (use True a Inl go in simp_all)
        with fr(4) show ?thesis unfolding s by auto
      qed
    qed
  qed
qed

lemma marker_at_iff: "(marker_at s \<noteq> None) = (\<exists>post. s = ''const linksData'' @ post)"
proof -
  have "(marker_at s \<noteq> None) = (lit ''const linksData'' s \<noteq> [])"
    by (cases "lit ''const linksData'' s") (simp_all add: marker_at_def first_of_def)
  also have "\<dots> = (\<exists>post. post \<in> set (lit ''const linksData'' s))"
    by (cases "lit ''const linksData'' s") auto
  also have "\<dots> = (\<exists>post. s = ''const linksData'' @ post)"
    by (simp only: lit_iff)
  finally show ?thesis .
qed

lemma has_marker_iff:
  "has_marker t = (tag_name t = ''script'' \<and>
     (case tag_string t of None \<Rightarrow> False | Some txt \<Rightarrow> re_search marker_at txt \<noteq> None))"
proof (cases "tag_string t")
  case None
  then show ?thesis by (simp add: has_marker_def)
next
  case (Some content)
  have "(re_search marker_at content \<noteq> None)
      = (\<exists>pre post. content = pre @ ''const linksData'' @ post)"
    unfolding re_search_iff marker_at_iff by blast
  with Some show ?thesis by (simp add: has_marker_def)
qed

lemma find_script_has_marker: "find_script sp = find has_marker sp"
proof -
  have "has_marker = (\<lambda>t. tag_name t = ''script'' \<and>
     (case tag_string t of None \<Rightarrow> False | Some txt \<Rightarrow> re_search marker_at txt \<noteq> None))"
    by (rule ext) (rule has_marker_iff)
  then show ?thesis by (simp add: find_script_def)
qed

lemma find_first:
  "\<forall>b\<in>set before. \<not> P b \<Longrightarrow> P t \<Longrightarrow> find P (before @ t # after) = Some t"
  by (induction before) auto

lemma extract_from_script_no_matches:
  "links_matches sp = [] \<Longrightarrow> extract_from_script self sp = (Inr [], self)"
  by (simp add: extract_from_script_def)

text \<open>
  Claim C2, amended. An attempt fails when its fetch raises or when the parser raises on
  the page fetched. When the attempts before attempt \<open>k\<close> (counted from 0, within the
  retry budget) fail and attempt \<open>k\<close> fetches a page that the parser accepts, the call
  returns what the extractor gives on that page, whatever it is, after exactly \<open>k + 1\<close>
  requests. On a document in which no script element contains the marker the extractor
  returns the empty list, raises nothing and leaves the scraper as it was; so it does
  on a document in which the text of the first script element that contains the marker
  has no match of the \<^verbatim>\<open>linksData\<close> pattern.
\<close>

theorem scrape_returns_on_parsed_page:
  "(int k \<le> retries self \<and>
    (\<forall>j<k. attempt_fails parser
       (outcome nw (length (requests nw) + j) (url self) (timeout self + 5 * int j))) \<and>
    outcome nw (length (requests nw) + k) (url self) (timeout self + 5 * int k) = Inr content \<and>
    parser content = Inr sp
    \<longrightarrow> (\<exists>chs self'.
          extract_from_script (self\<lparr>timeout := timeout self + 5 * int k\<rparr>) sp = (Inr chs, self') \<and>
          scrape parser self nw
            = (chs, self',
               nw\<lparr>requests := requests nw
                    @ map (\<lambda>j. (url self, timeout self + 5 * int j)) [0..<Suc k]\<rparr>))) \<and>
   ((\<forall>t\<in>set sp. \<not> has_marker t) \<longrightarrow> extract_from_script self sp = (Inr [], self)) \<and>
   (sp = before @ t # after \<and> (\<forall>b\<in>set before. \<not> has_marker b) \<and> has_marker t \<and>
    tag_string t = Some txt \<and> re_search json_at txt = None
    \<longrightarrow> extract_from_script self sp = (Inr [], self))"
proof (intro conjI impI)
  assume a: "int k \<le> retries self \<and>
    (\<forall>j<k. attempt_fails parser
       (outcome nw (length (requests nw) + j) (url self) (timeout self + 5 * int j))) \<and>
    outcome nw (length (requests nw) + k) (url self) (timeout self + 5 * int k) = Inr content \<and>
    parser content = Inr sp"
  from scrape_loop_success [of k "retries self" parser nw self content sp "[]"] a
  show "\<exists>chs self'.
          extract_from_script (self\<lparr>timeout := timeout self + 5 * int k\<rparr>) sp = (Inr chs, self') \<and>
          scrape parser self nw
            = (chs, self',
               nw\<lparr>requests := requests nw
                    @ map (\<lambda>j. (url self, timeout self + 5 * int j)) [0..<Suc k]\<rparr>)"
    unfolding scrape_def by simp
next
  assume "\<forall>t\<in>set sp. \<not> has_marker t"
  then have "find_script sp = None"
    by (simp add: find_script_has_marker find_None_iff)
  then have "links_matches sp = []" by (simp add: links_matches_def)
  then show "extract_from_script self sp = (Inr [], self)"
    by (rule extract_from_script_no_matches)
next
  assume a: "sp = before @ t # after \<and> (\<forall>b\<in>set before. \<not> has_marker b) \<and> has_marker t \<and>
    tag_string t = Some txt \<and> re_search json_at txt = None"
  then have "find_script sp = Some t"
    by (simp add: find_script_has_marker find_first)
  with a have "links_matches sp = []" by (simp add: links_matches_def)
  then show "extract_from_script self sp = (Inr [], self)"
    by (rule extract_from_script_no_matches)
qed

lemma scenario_pages_facts:
  "\<not> has_marker \<lparr>tag_name = ''script'', tag_string = Some no_data_page\<rparr> \<and>
   has_marker \<lparr>tag_name = ''script'', tag_string = Some marker_only_page\<rparr> \<and>
   re_search json_at marker_only_page = None \<and>
   strict_page rejected_page = Inl ParserRejectedMarkup \<and>
   strict_page no_data_page = Inr (script_element no_data_page)"
  unfolding has_marker_iff by code_simp

theorem scrape_returns_on_parsed_page_witness:
  "scrape strict_page (AceStreamScraper ''u'' 10 3) (pages [rejected_page, no_data_page])
     = ([], (AceStreamScraper ''u'' 10 3)\<lparr>timeout := 15\<rparr>,
        (pages [rejected_page, no_data_page])\<lparr>requests := [(''u'', 10), (''u'', 15)]\<rparr>) \<and>
   extract_from_script (AceStreamScraper ''u'' 10 3) (script_element marker_only_page)
     = (Inr [], AceStreamScraper ''u'' 10 3)"
proof -
  let ?self = "AceStreamScraper ''u'' 10 3"
  let ?nw = "pages [rejected_page, no_data_page]"
  note f = scenario_pages_facts
  have h: "int 1 \<le> retries ?self \<and>
    (\<forall>j<1. attempt_fails strict_page
       (outcome ?nw (length (requests ?nw) + j) (url ?self) (timeout ?self + 5 * int j))) \<and>
    outcome ?nw (length (requests ?nw) + 1) (url ?self) (timeout ?self + 5 * int 1) = Inr no_data_page \<and>
    strict_page no_data_page = Inr (script_element no_data_page)"
    using f by (simp add: AceStreamScraper_def pages_def attempt_fails_def)
  have n: "\<forall>t\<in>set (script_element no_data_page). \<not> has_marker t"
    using f by (simp add: script_element_def)
  note t1 = scrape_returns_on_parsed_page
    [of 1 ?self strict_page ?nw no_data_page "script_element no_data_page"]
  have e: "extract_from_script (?self\<lparr>timeout := 15\<rparr>) (script_element no_data_page)
      = (Inr [], ?self\<lparr>timeout := 15\<rparr>)"
    by (rule scrape_returns_on_parsed_page [THEN conjunct2, THEN conjunct1, THEN mp]) (rule n)
  from t1 [THEN conjunct1, THEN mp, OF h] obtain chs self' where
    "extract_from_script (?self\<lparr>timeout := timeout ?self + 5 * int 1\<rparr>) (script_element no_data_page)
       = (Inr chs, self')"
    "scrape strict_page ?self ?nw
       = (chs, self', ?nw\<lparr>requests := requests ?nw
            @ map (\<lambda>j. (url ?self, timeout ?self + 5 * int j)) [0..<Suc 1]\<rparr>)"
    by blast
  with e have 1: "scrape strict_page ?self ?nw
     = ([], ?self\<lparr>timeout := 15\<rparr>, ?nw\<lparr>requests := [(''u'', 10), (''u'', 15)]\<rparr>)"
    by (simp add: AceStreamScraper_def pages_def)
  have m: "script_element marker_only_page
      = [] @ \<lparr>tag_name = ''script'', tag_string = Some marker_only_page\<rparr> # [] \<and>
    (\<forall>b\<in>set []. \<not> has_marker b) \<and>
    has_marker \<lparr>tag_name = ''script'', tag_string = Some marker_only_page\<rparr> \<and>
    tag_string \<lparr>tag_name = ''script'', tag_string = Some marker_only_page\<rparr> = Some marker_only_page \<and>
    re_search json_at marker_only_page = None"
    using f by (simp add: script_element_def)
  have 2: "extract_from_script ?self (script_element marker_only_page) = (Inr [], ?self)"
    by (rule scrape_returns_on_parsed_page [THEN conjunct2, THEN conjunct2, THEN mp]) (rule m)
  from 1 2 show ?thesis by (rule conjI)
qed

text \<open>
  The claim as stated fails where the parser rejects the page: the first fetch below
  succeeds, the parser raises inside the \<^verbatim>\<open>try\<close> block, and the call goes on to
  fetch the page three more times.
\<close>

theorem scrape_returns_on_parsed_page_counterexample:
  "outcome (failing_then 0 rejected_page) 0 ''u'' 10 = Inr rejected_page \<and>
   fst (scrape strict_page (AceStreamScraper ''u'' 10 3) (failing_then 0 rejected_page)) = [] \<and>
   requests (snd (snd (scrape strict_page (AceStreamScraper ''u'' 10 3)
       (failing_then 0 rejected_page))))
     = [(''u'', 10), (''u'', 15), (''u'', 20), (''u'', 25)]"
  by code_simp

text \<open>
  Claim C3. When every attempt of the call fails, the call returns the empty list (it
  raises nothing) after \<open>retries + 1\<close> requests, none when \<open>retries\<close> is negative, with
  the seen identifiers untouched.
\<close>

theorem scrape_all_attempts_fail:
  assumes "\<forall>j<nat (retries self + 1).
     \<exists>e. outcome nw (length (requests nw) + j) (url self) (timeout self + 5 * int j) = Inl e"
  shows "scrape parser self nw
     = ([], self\<lparr>timeout := timeout self + 5 * max 0 (retries self)\<rparr>,
        nw\<lparr>requests := requests nw
             @ map (\<lambda>j. (url self, timeout self + 5 * int j)) [0..<nat (retries self + 1)]\<rparr>)"
  unfolding scrape_def using assms by (rule scrape_loop_fail)

theorem scrape_all_attempts_fail_witness:
  "scrape script_page (AceStreamScraper ''u'' 10 3) (failing_then 4 scenario_B)
     = ([], (AceStreamScraper ''u'' 10 3)\<lparr>timeout := 25\<rparr>,
        (failing_then 4 scenario_B)\<lparr>requests := [(''u'', 10), (''u'', 15), (''u'', 20), (''u'', 25)]\<rparr>)"
proof -
  let ?self = "AceStreamScraper ''u'' 10 3"
  let ?nw = "failing_then 4 scenario_B"
  have n: "nat (retries ?self + 1) = 4" by (simp add: AceStreamScraper_def)
  have h: "\<forall>j<nat (retries ?self + 1).
     \<exists>e. outcome ?nw (length (requests ?nw) + j) (url ?self) (timeout ?self + 5 * int j) = Inl e"
    unfolding n by (simp add: failing_then_def)
  have u: "[0..<4] = [0, 1, 2, 3]" by (simp add: upt_rec)
  from scrape_all_attempts_fail [OF h, of script_page] show ?thesis
    unfolding n u by (simp add: AceStreamScraper_def failing_then_def)
qed

text \<open>
  Claim C4. The requests of one call are issued to the scraper's URL with the timeouts
  \<open>t\<close>, \<open>t + 5\<close>, \<open>t + 10\<close>, ... where \<open>t\<close> is the timeout at the start of the call
  (the configured one for a freshly constructed scraper): attempt \<open>j + 1\<close> uses
  \<open>t + 5 * j\<close>, and there are at most \<open>retries + 1\<close> attempts.
\<close>

theorem scrape_timeouts:
  "\<exists>m\<le>nat (retries self + 1).
     requests (snd (snd (scrape parser self nw)))
       = requests nw @ map (\<lambda>j. (url self, timeout self + 5 * int j)) [0..<m]"
  unfolding scrape_def by (rule scrape_loop_requests)

lemma scenario_C_run:
  "fst (scrape script_page (AceStreamScraper ''u'' 10 3) (failing_then 2 scenario_C))
     = [(''a1'', ''One''), (''b2'', ''Two'')] \<and>
   length (requests (snd (snd (scrape script_page (AceStreamScraper ''u'' 10 3)
     (failing_then 2 scenario_C))))) = 3"
  by code_simp

theorem scrape_timeouts_witness:
  "fst (scrape script_page (AceStreamScraper ''u'' 10 3) (failing_then 2 scenario_C))
     = [(''a1'', ''One''), (''b2'', ''Two'')] \<and>
   requests (snd (snd (scrape script_page (AceStreamScraper ''u'' 10 3)
     (failing_then 2 scenario_C)))) = [(''u'', 10), (''u'', 10 + 5), (''u'', 10 + 2 * 5)]"
proof -
  let ?self = "AceStreamScraper ''u'' 10 3"
  let ?nw = "failing_then 2 scenario_C"
  from scrape_timeouts [of ?self script_page ?nw] obtain m where
    r: "requests (snd (snd (scrape script_page ?self ?nw)))
       = requests ?nw @ map (\<lambda>j. (url ?self, timeout ?self + 5 * int j)) [0..<m]"
    by blast
  then have "length (requests (snd (snd (scrape script_page ?self ?nw)))) = m"
    by (simp add: failing_then_def)
  with scenario_C_run have "m = 3" by simp
  moreover have "[0..<3] = [0, 1, 2]" by (simp add: upt_rec)
  ultimately have "requests (snd (snd (scrape script_page ?self ?nw)))
      = [(''u'', 10), (''u'', 10 + 5), (''u'', 10 + 2 * 5)]"
    using r by (simp add: failing_then_def AceStreamScraper_def)
  with scenario_C_run show ?thesis by blast
qed

text \<open>
  Claim C9. The seen set is empty at construction; extraction adds to it exactly the
  identifiers it returns; a whole \<^verbatim>\<open>scrape\<close> call leaves in it every identifier
  that was there before. The other operations do not return a changed scraper.
\<close>

theorem identified_ids_grow:
  "identified_ids (AceStreamScraper u t r) = {} \<and>
   (\<exists>chs. fst (extract_from_script self sp) = Inr chs \<and>
      identified_ids (snd (extract_from_script self sp)) = identified_ids self \<union> fst ` set chs) \<and>
   identified_ids self \<subseteq> identified_ids (snd (extract_from_script self sp)) \<and>
   identified_ids self \<subseteq> identified_ids (fst (snd (scrape parser self nw)))"
proof -
  from extract_from_script_result [of self sp] obtain chs where
    "extract_from_script self sp
       = (Inr chs, self\<lparr>identified_ids := identified_ids self \<union> fst ` set chs\<rparr>)"
    by blast
  then have "fst (extract_from_script self sp) = Inr chs \<and>
      identified_ids (snd (extract_from_script self sp)) = identified_ids self \<union> fst ` set chs"
    by simp
  moreover from this have "identified_ids self \<subseteq> identified_ids (snd (extract_from_script self sp))"
    by auto
  moreover have "identified_ids self \<subseteq> identified_ids (fst (snd (scrape parser self nw)))"
    unfolding scrape_def by (rule scrape_loop_ids)
  moreover have "identified_ids (AceStreamScraper u t r) = {}"
    by (simp add: AceStreamScraper_def)
  ultimately show ?thesis by blast
qed

lemma scenario_C_ids:
  "fst (extract_from_script ((AceStreamScraper ''u'' 10 3)\<lparr>identified_ids := {''a1'', ''zz''}\<rparr>)
     (script_element scenario_C)) = Inr [(''b2'', ''Two'')]"
  by code_simp

theorem identified_ids_grow_witness:
  "identified_ids (snd (extract_from_script
      ((AceStreamScraper ''u'' 10 3)\<lparr>identified_ids := {''a1'', ''zz''}\<rparr>)
      (script_element scenario_C))) = {''a1'', ''zz'', ''b2''}"
  using identified_ids_grow [of "''u''" 10 3
      "(AceStreamScraper ''u'' 10 3)\<lparr>identified_ids := {''a1'', ''zz''}\<rparr>"
      "script_element scenario_C" script_page "failing_then 0 scenario_C"]
    scenario_C_ids
  by auto

section \<open>The writers\<close>

lemma write_entries:
  "foldl (\<lambda>f (channel_id, name). (f @ ''#EXTINF:-1,'' @ name @ [newline]) @ p @ channel_id @ [newline])
         acc channels
     = acc @ concat (map (\<lambda>(channel_id, name).
                            ''#EXTINF:-1,'' @ name @ [newline] @ p @ channel_id @ [newline]) channels)"
  by (induction channels arbitrary: acc) (auto simp: case_prod_unfold)

lemma save_to_file_text:
  "save_to_file channels filename fs = fs(filename \<mapsto> playlist legacy_uri channels)"
  unfolding save_to_file_def playlist_def legacy_uri_def write_entries by simp

lemma save_to_m3u_text:
  "save_to_m3u channels filename fs = fs(filename \<mapsto> playlist native_uri channels)"
  unfolding save_to_m3u_def playlist_def native_uri_def write_entries by simp

text \<open>
  Claim C5. Each writer leaves in the file exactly the header line followed by the two
  lines of each channel in list order, with the playback line of its format; for the
  empty list the file holds the header line alone.
\<close>

theorem writers_text:
  "save_to_file channels filename fs = fs(filename \<mapsto> playlist legacy_uri channels) \<and>
   save_to_m3u channels filename fs = fs(filename \<mapsto> playlist native_uri channels) \<and>
   legacy_uri channel_id = ''http://127.0.0.1:6878/ace/getstream?id='' @ channel_id \<and>
   native_uri channel_id = ''acestream://'' @ channel_id \<and>
   playlist uri [] = ''#EXTM3U'' @ [newline] \<and>
   playlist uri (channels @ [(channel_id, name)])
     = playlist uri channels @ ''#EXTINF:-1,'' @ name @ [newline] @ uri channel_id @ [newline]"
  by (simp add: save_to_file_text save_to_m3u_text legacy_uri_def native_uri_def)
     (simp add: playlist_def)

theorem writers_text_witness:
  "save_to_file [(''abc'', ''Ch'')] ''f'' Map.empty ''f''
     = Some (''#EXTM3U'' @ [newline] @ ''#EXTINF:-1,Ch'' @ [newline]
             @ ''http://127.0.0.1:6878/ace/getstream?id=abc'' @ [newline]) \<and>
   save_to_m3u [(''abc'', ''Ch'')] ''f'' Map.empty ''f''
     = Some (''#EXTM3U'' @ [newline] @ ''#EXTINF:-1,Ch'' @ [newline]
             @ ''acestream://abc'' @ [newline]) \<and>
   save_to_m3u [] ''f'' Map.empty ''f'' = Some (''#EXTM3U'' @ [newline])"
proof -
  note w = writers_text [of _ "''f''" Map.empty "''abc''" _ "''Ch''"]
  from w [of "[(''abc'', ''Ch'')]"] w [of "[]" legacy_uri]
  have 1: "save_to_file [(''abc'', ''Ch'')] ''f'' Map.empty ''f''
     = Some (''#EXTM3U'' @ [newline] @ ''#EXTINF:-1,Ch'' @ [newline]
             @ ''http://127.0.0.1:6878/ace/getstream?id=abc'' @ [newline])"
    by simp
  from w [of "[(''abc'', ''Ch'')]"] w [of "[]" native_uri]
  have 2: "save_to_m3u [(''abc'', ''Ch'')] ''f'' Map.empty ''f''
     = Some (''#EXTM3U'' @ [newline] @ ''#EXTINF:-1,Ch'' @ [newline]
             @ ''acestream://abc'' @ [newline])"
    by simp
  from w [of "[]"] have 3: "save_to_m3u [] ''f'' Map.empty ''f'' = Some (''#EXTM3U'' @ [newline])"
    by simp
  from 1 2 3 show ?thesis by blast
qed

lemma split_first_newline:
  "newline \<notin> set a \<Longrightarrow> split_first [newline] (a @ newline # rest) = Some (a, rest)"
  by (induction a) auto

lemma py_split_line:
  assumes "newline \<notin> set a"
  shows "py_split [newline] (a @ newline # rest) = a # py_split [newline] rest"
  by (subst py_split.simps) (simp add: split_first_newline [OF assms])

lemma py_split_empty: "py_split [newline] [] = [[]]"
  by (simp add: py_split.simps)

lemma strip_prefix_append: "strip_prefix p (p @ l) = Some l"
  by (simp add: strip_prefix_def)

lemma parse_entries_lines:
  assumes "\<forall>c\<in>set channels. newline \<notin> set (fst c) \<and> newline \<notin> set (snd c)"
  shows "parse_entries (py_split [newline]
           (concat (map (\<lambda>(channel_id, name).
              ''#EXTINF:-1,'' @ name @ [newline] @ legacy_uri channel_id @ [newline]) channels)))
         = Some channels"
  using assms
proof (induction channels)
  case Nil
  show ?case by (simp add: py_split_empty)
next
  case (Cons c channels)
  obtain channel_id name where c: "c = (channel_id, name)" by (cases c)
  from Cons.prems c have n1: "newline \<notin> set (''#EXTINF:-1,'' @ name)"
    and n2: "newline \<notin> set (legacy_uri channel_id)"
    by (auto simp: newline_def legacy_uri_def)
  let ?rest = "concat (map (\<lambda>(channel_id, name).
              ''#EXTINF:-1,'' @ name @ [newline] @ legacy_uri channel_id @ [newline]) channels)"
  have "py_split [newline] ((''#EXTINF:-1,'' @ name) @ newline # legacy_uri channel_id @ newline # ?rest)
      = (''#EXTINF:-1,'' @ name) # legacy_uri channel_id # py_split [newline] ?rest"
    by (simp only: py_split_line [OF n1] py_split_line [OF n2])
  moreover have "strip_prefix ''#EXTINF:-1,'' (''#EXTINF:-1,'' @ name) = Some name"
    by (rule strip_prefix_append)
  moreover have "strip_prefix ''http://127.0.0.1:6878/ace/getstream?id='' (legacy_uri channel_id)
      = Some channel_id"
    unfolding legacy_uri_def by (rule strip_prefix_append)
  moreover from Cons have "parse_entries (py_split [newline] ?rest) = Some channels" by simp
  ultimately show ?case by (simp add: c)
qed

lemma parse_legacy_playlist:
  assumes "\<forall>c\<in>set channels. newline \<notin> set (fst c) \<and> newline \<notin> set (snd c)"
  shows "parse_legacy (playlist legacy_uri channels) = Some channels"
proof -
  have h: "newline \<notin> set ''#EXTM3U''" by (simp add: newline_def)
  let ?body = "concat (map (\<lambda>(channel_id, name).
              ''#EXTINF:-1,'' @ name @ [newline] @ legacy_uri channel_id @ [newline]) channels)"
  have p: "playlist legacy_uri channels = ''#EXTM3U'' @ newline # ?body"
    by (simp add: playlist_def)
  have "py_split [newline] (playlist legacy_uri channels) = ''#EXTM3U'' # py_split [newline] ?body"
    unfolding p by (rule py_split_line [OF h])
  then show ?thesis
    unfolding parse_legacy_def using parse_entries_lines [OF assms] by simp
qed

text \<open>
  Claim C6, amended. For every channel list whose identifiers and names contain no
  newline character, as those of every extracted list do, reading the legacy writer's
  file back recovers the list exactly, in order.
\<close>

theorem legacy_round_trip:
  assumes "\<forall>c\<in>set channels. newline \<notin> set (fst c) \<and> newline \<notin> set (snd c)"
  shows "map_option parse_legacy (save_to_file channels filename fs filename)
           = Some (Some channels)"
  by (simp add: save_to_file_text parse_legacy_playlist [OF assms])

theorem legacy_round_trip_witness:
  "map_option parse_legacy (save_to_file [(''a1'', ''One''), (''b2'', ''Two'')] ''f'' Map.empty ''f'')
     = Some (Some [(''a1'', ''One''), (''b2'', ''Two'')])"
proof -
  have "\<forall>c\<in>set [(''a1'', ''One''), (''b2'', ''Two'')].
      newline \<notin> set (fst c) \<and> newline \<notin> set (snd c)"
    by (simp add: newline_def)
  from legacy_round_trip [OF this] show ?thesis .
qed

text \<open>
  The claim as stated fails on a name that contains a newline: the file written for the
  one channel below is the file of two other channels, and reading it back gives those.
\<close>

theorem legacy_round_trip_counterexample:
  "map_option parse_legacy (save_to_file newline_name_channels ''f'' Map.empty ''f'')
     = Some (Some [(''x'', ''a''), (''y'', ''b'')]) \<and>
   newline_name_channels \<noteq> [(''x'', ''a''), (''y'', ''b'')]"
  by code_simp

section \<open>The driver\<close>

text \<open>
  Claim C10. The driver writes the two files exactly when the scraped list is not
  empty. When it is empty the disk is left as it was and the one line printed is
  \<^verbatim>\<open>No channels found\<close>; otherwise the two playlists are written under their
  default names.
\<close>

theorem main_writes_only_when_found:
  "(fst (scrape parser
           (AceStreamScraper ''https://archive.org/download/abcd_20240416/output.html'' 10 3)
           (network w)) = []
     \<longrightarrow> disk (main parser w) = disk w \<and>
         stdout (main parser w) = stdout w @ [''No channels found'']) \<and>
   (fst (scrape parser
           (AceStreamScraper ''https://archive.org/download/abcd_20240416/output.html'' 10 3)
           (network w)) \<noteq> []
     \<longrightarrow> disk (main parser w)
           = (disk w)(''acestream_channels.txt'' \<mapsto> playlist legacy_uri (fst (scrape parser
                 (AceStreamScraper ''https://archive.org/download/abcd_20240416/output.html'' 10 3)
                 (network w))),
               ''acestream_playlist.m3u'' \<mapsto> playlist native_uri (fst (scrape parser
                 (AceStreamScraper ''https://archive.org/download/abcd_20240416/output.html'' 10 3)
                 (network w)))))"
  by (simp add: main_def Let_def save_to_file_text save_to_m3u_text split: prod.splits)

lemma main_runs:
  "fst (scrape script_page
     (AceStreamScraper ''https://archive.org/download/abcd_20240416/output.html'' 10 3)
     (failing_then 4 scenario_C)) = [] \<and>
   fst (scrape script_page
     (AceStreamScraper ''https://archive.org/download/abcd_20240416/output.html'' 10 3)
     (failing_then 0 no_data_page)) = [] \<and>
   fst (scrape script_page
     (AceStreamScraper ''https://archive.org/download/abcd_20240416/output.html'' 10 3)
     (failing_then 3 scenario_B)) = [(''abc123'', ''Channel 1'')]"
  by code_simp

theorem main_writes_only_when_found_witness:
  "disk (main script_page (empty_world (failing_then 4 scenario_C))) = Map.empty \<and>
   stdout (main script_page (empty_world (failing_then 4 scenario_C))) = [''No channels found''] \<and>
   disk (main script_page (empty_world (failing_then 0 no_data_page))) = Map.empty \<and>
   stdout (main script_page (empty_world (failing_then 0 no_data_page))) = [''No channels found''] \<and>
   disk (main script_page (empty_world (failing_then 3 scenario_B)))
     = [''acestream_channels.txt'' \<mapsto> playlist legacy_uri [(''abc123'', ''Channel 1'')],
        ''acestream_playlist.m3u'' \<mapsto> playlist native_uri [(''abc123'', ''Channel 1'')]]"
  using main_writes_only_when_found [of script_page "empty_world (failing_then 4 scenario_C)"]
    main_writes_only_when_found [of script_page "empty_world (failing_then 0 no_data_page)"]
    main_writes_only_when_found [of script_page "empty_world (failing_then 3 scenario_B)"]
    main_runs
  by (simp add: empty_world_def)

end
